theory Spec2Isabelle
  imports Complex_Main "HOL-Library.Sublist"
begin

text \<open>
  A shallow embedding of the reactive core: the scheduler (\<open>queueWatcher\<close>,
  \<open>flushSchedulerQueue\<close>), the dependency tracker (\<open>Dep\<close>, \<open>pushTarget\<close>, \<open>popTarget\<close>) and the
  observer (\<open>observe\<close>, \<open>defineReactive\<close>, \<open>set\<close>, \<open>del\<close>). Module variables become the
  fields of a state record that every function takes and returns. Code of collaborators
  (watcher bodies, lifecycle hooks, user-defined accessors) is a parameter of the model and
  is taken to return normally. A function that may not return takes fuel and yields no
  result when the fuel runs out.
\<close>

section \<open>Scheduler (scheduler.js)\<close>

subsection \<open>State\<close>

text \<open>
  A watcher is an object of the excluded Watcher class; the scheduler reads its \<open>id\<close>,
  \<open>user\<close>, \<open>expression\<close> and \<open>vm\<close> and calls \<open>before\<close> (when present) and \<open>run\<close>. Watchers are
  referred to by reference, and the table \<open>watcher_at\<close> of the environment gives the object
  behind a reference. What a body does is given by its effect on the client state \<open>'u\<close>
  (everything outside the scheduler) and by the watchers it passes to \<open>queueWatcher\<close> while it
  runs, in call order; a body may name its own watcher.
\<close>

type_synonym wref = nat

record 'u watcher =
  wid :: int
  user :: bool
  expression :: string
  vm :: nat
  before :: "('u \<Rightarrow> 'u \<times> wref list) option"
  run :: "'u \<Rightarrow> 'u \<times> wref list"

text \<open>
  An entry of \<open>has\<close> is absent, \<open>null\<close> or \<open>true\<close>. The fields \<open>queue\<close> to \<open>index\<close> are the
  module variables. \<open>client\<close> is the state of the collaborators; \<open>runLog\<close> lists the watchers
  whose \<open>run\<close> has been called, \<open>warnings\<close> the messages passed to \<open>warn\<close>, \<open>ticks\<close> counts the
  calls \<open>nextTick(flushSchedulerQueue)\<close> and \<open>emitted\<close> the calls \<open>devtools.emit('flush')\<close>.
\<close>

datatype mark = Null_mark | True_mark

record 'u sched =
  queue :: "wref list"
  activatedChildren :: "nat list"
  has :: "int \<Rightarrow> mark option"
  circular :: "int \<Rightarrow> nat option"
  waiting :: bool
  flushing :: bool
  index :: nat
  client :: 'u
  runLog :: "wref list"
  warnings :: "string list"
  ticks :: nat
  emitted :: nat

text \<open>
  The environment: \<open>production\<close> stands for \<open>process.env.NODE_ENV === 'production'\<close>, \<open>async\<close>
  for \<open>config.async\<close>, \<open>devtools\<close> for \<open>devtools && config.devtools\<close>. \<open>isPrimaryMounted\<close> is the
  test \<open>vm._watcher === watcher && vm._isMounted\<close> on the owner of a watcher, \<open>updatedHook\<close> is
  \<open>callHook(vm, 'updated')\<close>, and \<open>setInactive\<close> writes \<open>vm._inactive\<close>.
\<close>

record 'u env =
  production :: bool
  async :: bool
  devtools :: bool
  watcher_at :: "wref \<Rightarrow> 'u watcher"
  isPrimaryMounted :: "'u \<Rightarrow> wref \<Rightarrow> bool"
  updatedHook :: "nat \<Rightarrow> 'u \<Rightarrow> 'u \<times> wref list"
  activateChildComponent :: "nat \<Rightarrow> 'u \<Rightarrow> 'u \<times> wref list"
  setInactive :: "nat \<Rightarrow> bool \<Rightarrow> 'u \<Rightarrow> 'u"

definition MAX_UPDATE_COUNT :: nat where
  "MAX_UPDATE_COUNT = 100"

definition idOf :: "'u env \<Rightarrow> wref \<Rightarrow> int" where
  "idOf env w = wid (watcher_at env w)"

text \<open>The test \<open>has[id] == null\<close>, true of an absent entry and of \<open>null\<close>.\<close>

fun is_null :: "mark option \<Rightarrow> bool" where
  "is_null None = True"
| "is_null (Some Null_mark) = True"
| "is_null (Some True_mark) = False"

definition initialState :: "'u \<Rightarrow> 'u sched" where
  "initialState u =
     \<lparr>queue = [], activatedChildren = [], has = (\<lambda>_. None), circular = (\<lambda>_. None),
      waiting = False, flushing = False, index = 0, client = u, runLog = [], warnings = [],
      ticks = 0, emitted = 0\<rparr>"

subsection \<open>resetSchedulerState and queueWatcher\<close>

definition resetSchedulerState :: "'u env \<Rightarrow> 'u sched \<Rightarrow> 'u sched" where
  "resetSchedulerState env s =
     s\<lparr>index := 0, queue := [], activatedChildren := [],
       has := (\<lambda>_. None),
       circular := (if \<not> production env then (\<lambda>_. None) else circular s),
       waiting := False, flushing := False\<rparr>"

text \<open>
  The loop \<open>while (i > index && queue[i].id > watcher.id) i--\<close>; \<open>i\<close> starts at
  \<open>queue.length - 1\<close>, which is \<open>-1\<close> on an empty queue, so it is an integer.
\<close>

function scanBack :: "'u env \<Rightarrow> wref list \<Rightarrow> nat \<Rightarrow> int \<Rightarrow> int \<Rightarrow> int" where
  "scanBack env q idx ident i =
     (if i > int idx \<and> idOf env (q ! nat i) > ident
      then scanBack env q idx ident (i - 1) else i)"
  by pat_completeness auto
termination
  by (relation "measure (\<lambda>(env, q, idx, ident, i). nat i)") auto

declare scanBack.simps [simp del]

text \<open>\<open>xs.splice(p, 0, x)\<close>.\<close>

definition spliceIn :: "'a list \<Rightarrow> nat \<Rightarrow> 'a \<Rightarrow> 'a list" where
  "spliceIn xs p x = take p xs @ [x] @ drop p xs"

text \<open>
  The first half of the body of \<open>queueWatcher\<close>, entered when the id is not pending: mark it
  and put the watcher into the queue, at the end when no flush is running, by the backward
  scan otherwise.
\<close>

definition enqueue :: "'u env \<Rightarrow> wref \<Rightarrow> 'u sched \<Rightarrow> 'u sched" where
  "enqueue env watcher s =
     (let ident = idOf env watcher;
          s1 = s\<lparr>has := (has s)(ident \<mapsto> True_mark)\<rparr>
      in if \<not> flushing s1 then s1\<lparr>queue := queue s1 @ [watcher]\<rparr>
         else let i = scanBack env (queue s1) (index s1) ident (int (length (queue s1)) - 1)
              in s1\<lparr>queue := spliceIn (queue s1) (nat (i + 1)) watcher\<rparr>)"

text \<open>
  \<open>queueWatcher\<close>. The argument \<open>flush\<close> is what the synchronous mode calls, namely
  \<open>flushSchedulerQueue\<close> with the fuel that is left.
\<close>

definition queueWatcher ::
  "'u env \<Rightarrow> ('u sched \<Rightarrow> 'u sched option) \<Rightarrow> wref \<Rightarrow> 'u sched \<Rightarrow> 'u sched option" where
  "queueWatcher env flush watcher s =
     (if is_null (has s (idOf env watcher)) then
        let s2 = enqueue env watcher s
        in if \<not> waiting s2 then
             let s3 = s2\<lparr>waiting := True\<rparr> in
             if \<not> production env \<and> \<not> async env then flush s3
             else Some (s3\<lparr>ticks := ticks s3 + 1\<rparr>)
           else Some s2
      else Some s)"

subsection \<open>flushSchedulerQueue\<close>

text \<open>Running a body: its effect on the client state, then its calls of \<open>queueWatcher\<close>.\<close>

fun queueAll ::
  "(wref \<Rightarrow> 'u sched \<Rightarrow> 'u sched option) \<Rightarrow> wref list \<Rightarrow> 'u sched \<Rightarrow> 'u sched option" where
  "queueAll q [] s = Some s"
| "queueAll q (w # ws) s = (case q w s of None \<Rightarrow> None | Some s' \<Rightarrow> queueAll q ws s')"

definition invoke ::
  "'u env \<Rightarrow> ('u sched \<Rightarrow> 'u sched option) \<Rightarrow> ('u \<Rightarrow> 'u \<times> wref list) \<Rightarrow> 'u sched \<Rightarrow> 'u sched option" where
  "invoke env flush body s =
     (case body (client s) of (u', ws) \<Rightarrow> queueAll (queueWatcher env flush) ws (s\<lparr>client := u'\<rparr>))"

definition loopWarning :: "'u watcher \<Rightarrow> string" where
  "loopWarning w = ''You may have an infinite update loop '' @
     (if user w then ''in watcher with expression '' @ [CHR 0x22] @ expression w @ [CHR 0x22]
      else ''in a component render function.'')"

text \<open>
  One entry of the pass: \<open>watcher.before()\<close> when present, \<open>has[id] = null\<close>,
  \<open>watcher.run()\<close>.
\<close>

definition runEntry ::
  "'u env \<Rightarrow> ('u sched \<Rightarrow> 'u sched option) \<Rightarrow> wref \<Rightarrow> 'u sched \<Rightarrow> 'u sched option" where
  "runEntry env flush watcher s =
     (case (case before (watcher_at env watcher) of None \<Rightarrow> Some s
            | Some b \<Rightarrow> invoke env flush b s) of
        None \<Rightarrow> None
      | Some s1 \<Rightarrow>
          let s2 = s1\<lparr>has := (has s1)(idOf env watcher \<mapsto> Null_mark)\<rparr>
          in invoke env flush (run (watcher_at env watcher)) (s2\<lparr>runLog := runLog s2 @ [watcher]\<rparr>))"

text \<open>
  The loop \<open>for (index = 0; index < queue.length; index++)\<close> from the current \<open>index\<close>; it
  reads \<open>index\<close> and the queue anew in every round. Each round takes one unit of fuel.
\<close>

fun flushLoop ::
  "nat \<Rightarrow> 'u env \<Rightarrow> ('u sched \<Rightarrow> 'u sched option) \<Rightarrow> 'u sched \<Rightarrow> 'u sched option" where
  "flushLoop 0 env flush s = None"
| "flushLoop (Suc n) env flush s =
     (if index s < length (queue s) then
        let watcher = queue s ! index s;
            ident = idOf env watcher
        in (case runEntry env flush watcher s of
              None \<Rightarrow> None
            | Some s3 \<Rightarrow>
                if \<not> production env \<and> \<not> is_null (has s3 ident) then
                  let c = (case circular s3 ident of None \<Rightarrow> 0 | Some k \<Rightarrow> k) + 1;
                      s4 = s3\<lparr>circular := (circular s3)(ident \<mapsto> c)\<rparr>
                  in if c > MAX_UPDATE_COUNT
                     then Some (s4\<lparr>warnings := warnings s4 @ [loopWarning (watcher_at env watcher)]\<rparr>)
                     else flushLoop n env flush (s4\<lparr>index := index s4 + 1\<rparr>)
                else flushLoop n env flush (s3\<lparr>index := index s3 + 1\<rparr>))
      else Some s)"

fun callActivatedHooks ::
  "'u env \<Rightarrow> ('u sched \<Rightarrow> 'u sched option) \<Rightarrow> nat list \<Rightarrow> 'u sched \<Rightarrow> 'u sched option" where
  "callActivatedHooks env flush [] s = Some s"
| "callActivatedHooks env flush (c # cs) s =
     (case invoke env flush (activateChildComponent env c) (s\<lparr>client := setInactive env c True (client s)\<rparr>) of
        None \<Rightarrow> None
      | Some s' \<Rightarrow> callActivatedHooks env flush cs s')"

text \<open>\<open>callUpdatedHooks\<close> walks its queue from the last entry to the first.\<close>

fun callUpdatedHooks_from ::
  "'u env \<Rightarrow> ('u sched \<Rightarrow> 'u sched option) \<Rightarrow> wref list \<Rightarrow> 'u sched \<Rightarrow> 'u sched option" where
  "callUpdatedHooks_from env flush [] s = Some s"
| "callUpdatedHooks_from env flush (w # ws) s =
     (if isPrimaryMounted env (client s) w
      then (case invoke env flush (updatedHook env (vm (watcher_at env w))) s of
              None \<Rightarrow> None
            | Some s' \<Rightarrow> callUpdatedHooks_from env flush ws s')
      else callUpdatedHooks_from env flush ws s)"

definition callUpdatedHooks ::
  "'u env \<Rightarrow> ('u sched \<Rightarrow> 'u sched option) \<Rightarrow> wref list \<Rightarrow> 'u sched \<Rightarrow> 'u sched option" where
  "callUpdatedHooks env flush q s = callUpdatedHooks_from env flush (rev q) s"

text \<open>
  \<open>flushSchedulerQueue\<close>. The comparator \<open>a.id - b.id\<close> sorts by ascending id; \<open>sort_key\<close> keeps
  entries of equal id in their order.
\<close>

primrec flushSchedulerQueue :: "nat \<Rightarrow> 'u env \<Rightarrow> 'u sched \<Rightarrow> 'u sched option" where
  "flushSchedulerQueue 0 env s = None"
| "flushSchedulerQueue (Suc n) env s =
     (let s1 = s\<lparr>flushing := True\<rparr>;
          s2 = s1\<lparr>queue := sort_key (idOf env) (queue s1)\<rparr>
      in case flushLoop n env (flushSchedulerQueue n env) (s2\<lparr>index := 0\<rparr>) of
           None \<Rightarrow> None
         | Some s3 \<Rightarrow>
             let activatedQueue = activatedChildren s3;
                 updatedQueue = queue s3;
                 s4 = resetSchedulerState env s3
             in (case callActivatedHooks env (flushSchedulerQueue n env) activatedQueue s4 of
                  None \<Rightarrow> None
                | Some s5 \<Rightarrow>
                    (case callUpdatedHooks env (flushSchedulerQueue n env) updatedQueue s5 of
                       None \<Rightarrow> None
                     | Some s6 \<Rightarrow> Some (if devtools env then s6\<lparr>emitted := emitted s6 + 1\<rparr> else s6))))"

definition queueActivatedComponent :: "'u env \<Rightarrow> nat \<Rightarrow> 'u sched \<Rightarrow> 'u sched" where
  "queueActivatedComponent env c s =
     s\<lparr>client := setInactive env c False (client s),
       activatedChildren := activatedChildren s @ [c]\<rparr>"

subsection \<open>Notions used in the statements about the scheduler\<close>

text \<open>The slot at which \<open>queueWatcher\<close> splices a watcher in during a flush.\<close>

definition insertPos :: "'u env \<Rightarrow> wref \<Rightarrow> 'u sched \<Rightarrow> nat" where
  "insertPos env w s =
     nat (scanBack env (queue s) (index s) (idOf env w) (int (length (queue s)) - 1) + 1)"

text \<open>
  What calls of \<open>queueWatcher\<close> inside a pass may change: the queue behind the cursor grows
  by insertions, its entries keeping their order, nothing before it moves, nothing is run and
  no flush is requested.
\<close>

definition passExtends :: "'u sched \<Rightarrow> 'u sched \<Rightarrow> bool" where
  "passExtends s s' \<longleftrightarrow>
     waiting s' \<and> runLog s' = runLog s \<and> warnings s' = warnings s \<and> index s' = index s \<and>
     index s < length (queue s') \<and>
     take (Suc (index s)) (queue s') = take (Suc (index s)) (queue s) \<and>
     subseq (drop (Suc (index s)) (queue s)) (drop (Suc (index s)) (queue s'))"

text \<open>A watcher whose \<open>before\<close> and \<open>run\<close> call \<open>queueWatcher\<close> for no watcher.\<close>

definition quiet :: "'u env \<Rightarrow> wref \<Rightarrow> bool" where
  "quiet env w \<longleftrightarrow>
     (\<forall>u. snd (run (watcher_at env w) u) = []) \<and>
     (\<forall>b u. before (watcher_at env w) = Some b \<longrightarrow> snd (b u) = [])"


subsection \<open>Example watchers and states\<close>

definition plainWatcher :: "int \<Rightarrow> wref list \<Rightarrow> unit watcher" where
  "plainWatcher i ws =
     \<lparr>wid = i, user = False, expression = [], vm = 0, before = None, run = (\<lambda>u. (u, ws))\<rparr>"

definition exampleEnv :: "bool \<Rightarrow> (wref \<Rightarrow> unit watcher) \<Rightarrow> unit env" where
  "exampleEnv isProd table =
     \<lparr>production = isProd, async = True, devtools = False, watcher_at = table,
      isPrimaryMounted = (\<lambda>_ _. False), updatedHook = (\<lambda>_ u. (u, [])),
      activateChildComponent = (\<lambda>_ u. (u, [])), setInactive = (\<lambda>_ _ u. u)\<rparr>"

text \<open>Watcher \<open>r\<close> has id \<open>r\<close>; the body of watcher 2 enqueues watcher 1.\<close>

definition reentrantTable :: "wref \<Rightarrow> unit watcher" where
  "reentrantTable r = plainWatcher (int r) (if r = 2 then [1] else [])"

text \<open>A flush of the ids 1, 2, 3 that is running watcher 2.\<close>

definition midFlush :: "unit sched" where
  "midFlush =
     (initialState ())\<lparr>queue := [1, 2, 3], index := 1, flushing := True, waiting := True,
        has := [1 \<mapsto> Null_mark, 2 \<mapsto> Null_mark, 3 \<mapsto> True_mark]\<rparr>"

text \<open>The watchers 0, 1, 2 have the ids 3, 1, 2.\<close>

definition threeTable :: "wref \<Rightarrow> unit watcher" where
  "threeTable r = plainWatcher (if r = 0 then 3 else if r = 1 then 1 else 2) []"




section \<open>Dependencies (dep.js)\<close>

text \<open>
  A \<open>Dep\<close> instance is addressed by its \<open>id\<close>, which the module counter \<open>uid\<close> hands out; the
  heap below holds its \<open>subs\<close>. \<open>Dep.target\<close> is \<open>null\<close> at first, a watcher after \<open>pushTarget\<close>,
  and whatever \<open>targetStack.pop()\<close> returns after \<open>popTarget\<close>, which is \<open>undefined\<close> on the
  empty stack.
\<close>

type_synonym depref = nat

datatype 'w target = Null_target | Undefined_target | Target 'w

section \<open>Observed values (observer/index.js)\<close>

subsection \<open>Values, objects and the heap\<close>

text \<open>
  A value is a primitive or a reference to an object of the heap. Numbers are \<open>NaN\<close> or a
  number that equals itself; strict equality does not tell the two zeros apart and treats
  the infinities like any other number, so they need no constructors of their own.
  A property key is an array index or any other name. A property is a data property
  (value, writable, enumerable, configurable) or an accessor property (getter, setter,
  enumerable, configurable). A function stored in an accessor is either a function of the
  client, known by a reference only, or the \<open>reactiveGetter\<close> or \<open>reactiveSetter\<close> of the closure
  that one call of \<open>defineReactive\<close> created.
\<close>

type_synonym ref = nat
type_synonym obref = nat
type_synonym cref = nat
type_synonym fnref = nat

datatype jsnum = NaN | Num real

datatype val = Undefined | Null | Bool bool | Number jsnum | Str string | Obj ref

datatype key = Index nat | Name string

datatype func = UserFn fnref | ReactiveGetter cref | ReactiveSetter cref

datatype property =
    DataProp val bool bool bool
  | AccessorProp "func option" "func option" bool bool

fun enumerable :: "property \<Rightarrow> bool" where
  "enumerable (DataProp v w e c) = e"
| "enumerable (AccessorProp g s e c) = e"

fun configurable :: "property \<Rightarrow> bool" where
  "configurable (DataProp v w e c) = c"
| "configurable (AccessorProp g s e c) = c"

fun getterOf :: "property \<Rightarrow> func option" where
  "getterOf (DataProp v w e c) = None"
| "getterOf (AccessorProp g s e c) = g"

fun setterOf :: "property \<Rightarrow> func option" where
  "setterOf (DataProp v w e c) = None"
| "setterOf (AccessorProp g s e c) = s"

text \<open>
  An object records what the code asks of it: whether it is an array, a plain object
  (\<open>isPlainObject\<close>), a VNode instance or something else; whether it is extensible; whether
  \<open>_isVue\<close> is set; its own \<open>__ob__\<close> (absent, an Observer instance, or another value); its own
  properties in creation order; for an array its elements, a hole reading as \<open>undefined\<close>,
  and whether the elements and \<open>length\<close> are read-only, as after \<open>Object.freeze\<close> (the own
  properties of other objects carry their attributes themselves); and whether its mutating
  methods have been replaced by those of \<open>arrayMethods\<close>. The keys
  \<open>__ob__\<close> and \<open>_isVue\<close> are kept apart from \<open>props\<close>, and prototype chains are not modelled:
  every property is an own property. Observer and Dep instances are not values, so they are
  never themselves observed.
\<close>

datatype objkind = PlainObject | ArrayObject | VNodeObject | OtherObject

datatype obslot = NoOb | ObInst obref | ObOther val

record jsobj =
  kind :: objkind
  extensible :: bool
  isVue :: bool
  ob :: obslot
  props :: "(key \<times> property) list"
  elems :: "val list"
  readOnlyElems :: bool
  augmented :: bool

record observer =
  ob_value :: ref
  ob_dep :: depref
  vmCount :: nat

text \<open>
  The variables that the accessor pair of one reactive field closes over: \<open>dep\<close>, \<open>val\<close>,
  \<open>childOb\<close> (no Observer when \<open>observe\<close> returned nothing or \<open>shallow\<close> is set), the getter and
  setter found on the key before, \<open>customSetter\<close> and \<open>shallow\<close>.
\<close>

record closure =
  c_dep :: depref
  c_val :: val
  childOb :: "obref option"
  c_getter :: "func option"
  c_setter :: "func option"
  customSetter :: "fnref option"
  shallow :: bool

text \<open>
  The heap: objects, Observer instances and closures with their allocation counters, the
  subscriber lists of the dependencies and the counter \<open>uid\<close>, \<open>Dep.target\<close> and
  \<open>targetStack\<close>, \<open>observerState.shouldConvert\<close>, the messages passed to \<open>warn\<close>, and the state
  \<open>world\<close> of the client. \<open>'w\<close> is the type of watchers.
\<close>

record ('w, 'u) heap =
  objs :: "ref \<Rightarrow> jsobj"
  observers :: "obref \<Rightarrow> observer"
  nextOb :: nat
  closures :: "cref \<Rightarrow> closure"
  nextClosure :: nat
  subs :: "depref \<Rightarrow> 'w list"
  uid :: nat
  target :: "'w target"
  targetStack :: "'w list"
  shouldConvert :: bool
  warned :: "string list"
  world :: 'u

text \<open>
  The environment of the observer: the build (\<open>prodBuild\<close> for
  \<open>process.env.NODE_ENV === 'production'\<close>), \<open>isServerRendering()\<close>, \<open>hasProto\<close> (both ways
  of augmenting an array have the same effect here), and the code of the client:
  \<open>callUser\<close> calls a client function with a receiver and arguments, \<open>callCustom\<close> is
  \<open>customSetter()\<close>, \<open>update\<close> and \<open>addDep\<close> are the methods of a watcher.
\<close>

record ('w, 'u) oenv =
  prodBuild :: bool
  serverRendering :: bool
  hasProto :: bool
  callUser :: "fnref \<Rightarrow> ref \<Rightarrow> val list \<Rightarrow> ('w, 'u) heap \<Rightarrow> val \<times> ('w, 'u) heap"
  callCustom :: "fnref \<Rightarrow> ('w, 'u) heap \<Rightarrow> ('w, 'u) heap"
  update :: "'w \<Rightarrow> ('w, 'u) heap \<Rightarrow> ('w, 'u) heap"
  addDep :: "'w \<Rightarrow> depref \<Rightarrow> ('w, 'u) heap \<Rightarrow> ('w, 'u) heap"

text \<open>
  An operation returns a result, raises, or runs out of fuel. \<open>TypeError\<close> is what the engine
  raises in strict code, \<open>RangeError\<close> what it raises for an array length above
  \<open>2\<^sup>3\<^sup>2 - 1\<close>; \<open>Unmodelled\<close> marks an accessor property on an array index, and the
  assignment to an array of a key from \<open>2\<^sup>3\<^sup>2 - 1\<close> onwards, which the engine keeps as an
  ordinary property.
\<close>

datatype jserror = TypeError | RangeError | Unmodelled

definition MAX_ARRAY_LENGTH :: nat where
  "MAX_ARRAY_LENGTH = 4294967295"

datatype 'a outcome = OutOfFuel | Raise jserror | Done 'a

definition andThen :: "'a outcome \<Rightarrow> ('a \<Rightarrow> 'b outcome) \<Rightarrow> 'b outcome" where
  "andThen m f = (case m of OutOfFuel \<Rightarrow> OutOfFuel | Raise e \<Rightarrow> Raise e | Done x \<Rightarrow> f x)"

text \<open>
  \<open>observe\<close>, the call of a stored function and \<open>dependArray\<close> are reached recursively. The
  definitions below take these three as the record \<open>rc\<close> wherever the source calls them from
  further inside, and \<open>level\<close> ties the knot: with fuel \<open>n + 1\<close> they are the definitions
  themselves run with fuel \<open>n\<close>, and with no fuel they do not return.
\<close>

record ('w, 'u) calls =
  r_observe :: "val \<Rightarrow> bool \<Rightarrow> ('w, 'u) heap \<Rightarrow> (obref option \<times> ('w, 'u) heap) outcome"
  r_callFn :: "func \<Rightarrow> ref \<Rightarrow> val list \<Rightarrow> ('w, 'u) heap \<Rightarrow> (val \<times> ('w, 'u) heap) outcome"
  r_dependArray :: "ref \<Rightarrow> ('w, 'u) heap \<Rightarrow> ('w, 'u) heap outcome"

subsection \<open>Dep\<close>

definition newDep :: "('w, 'u) heap \<Rightarrow> depref \<times> ('w, 'u) heap" where
  "newDep h = (uid h, h\<lparr>uid := uid h + 1, subs := (subs h)(uid h := [])\<rparr>)"

definition addSub :: "depref \<Rightarrow> 'w \<Rightarrow> ('w, 'u) heap \<Rightarrow> ('w, 'u) heap" where
  "addSub d sub h = h\<lparr>subs := (subs h)(d := subs h d @ [sub])\<rparr>"

text \<open>
  Modelled from the spec: the helper \<open>remove\<close> of \<open>util\<close> is not among the sources; a linear
  scan that takes the first occurrence out of the list.
\<close>

definition removeSub :: "depref \<Rightarrow> 'w \<Rightarrow> ('w, 'u) heap \<Rightarrow> ('w, 'u) heap" where
  "removeSub d sub h = h\<lparr>subs := (subs h)(d := remove1 sub (subs h d))\<rparr>"

definition depend :: "('w, 'u) oenv \<Rightarrow> depref \<Rightarrow> ('w, 'u) heap \<Rightarrow> ('w, 'u) heap" where
  "depend env d h = (case target h of Target w \<Rightarrow> addDep env w d h | _ \<Rightarrow> h)"

text \<open>
  The loop of \<open>notify\<close> over the copy \<open>subs\<close> made by \<open>this.subs.slice()\<close>, with its length
  \<open>l\<close> read once.
\<close>

function notifyLoop ::
  "('w, 'u) oenv \<Rightarrow> 'w list \<Rightarrow> nat \<Rightarrow> nat \<Rightarrow> ('w, 'u) heap \<Rightarrow> ('w, 'u) heap" where
  "notifyLoop env snapshot i l h =
     (if i < l then notifyLoop env snapshot (i + 1) l (update env (snapshot ! i) h) else h)"
  by pat_completeness auto
termination
  by (relation "measure (\<lambda>(env, snapshot, i, l, h). l - i)") auto

declare notifyLoop.simps [simp del]

definition notify :: "('w, 'u) oenv \<Rightarrow> depref \<Rightarrow> ('w, 'u) heap \<Rightarrow> ('w, 'u) heap" where
  "notify env d h = (let snapshot = subs h d in notifyLoop env snapshot 0 (length snapshot) h)"

definition pushTarget :: "'w \<Rightarrow> ('w, 'u) heap \<Rightarrow> ('w, 'u) heap" where
  "pushTarget t h =
     (let h1 = (case target h of Target cur \<Rightarrow> h\<lparr>targetStack := targetStack h @ [cur]\<rparr> | _ \<Rightarrow> h)
      in h1\<lparr>target := Target t\<rparr>)"

definition popTarget :: "('w, 'u) heap \<Rightarrow> ('w, 'u) heap" where
  "popTarget h =
     (if targetStack h = [] then h\<lparr>target := Undefined_target\<rparr>
      else h\<lparr>target := Target (last (targetStack h)), targetStack := butlast (targetStack h)\<rparr>)"

subsection \<open>Values and own properties\<close>

text \<open>\<open>a === b\<close>, and the conversion of a value to a boolean.\<close>

fun strictEq :: "val \<Rightarrow> val \<Rightarrow> bool" where
  "strictEq (Number NaN) b = False"
| "strictEq a (Number NaN) = False"
| "strictEq a b = (a = b)"

fun truthy :: "val \<Rightarrow> bool" where
  "truthy Undefined = False"
| "truthy Null = False"
| "truthy (Bool b) = b"
| "truthy (Number NaN) = False"
| "truthy (Number (Num x)) = (x \<noteq> 0)"
| "truthy (Str s) = (s \<noteq> [])"
| "truthy (Obj r) = True"

text \<open>
  Modelled from the spec: \<open>isValidArrayIndex\<close> of \<open>util\<close> is not among the sources; it holds
  of the keys that denote an array index, which are the keys \<open>Index i\<close> here.
\<close>

fun isValidArrayIndex :: "key \<Rightarrow> bool" where
  "isValidArrayIndex (Index i) = True"
| "isValidArrayIndex (Name s) = False"

text \<open>Reading \<open>xs[i]\<close>, which is \<open>undefined\<close> beyond the end.\<close>

definition elemAt :: "val list \<Rightarrow> nat \<Rightarrow> val" where
  "elemAt xs i = (if i < length xs then xs ! i else Undefined)"

fun putKey :: "key \<Rightarrow> property \<Rightarrow> (key \<times> property) list \<Rightarrow> (key \<times> property) list" where
  "putKey k p [] = [(k, p)]"
| "putKey k p ((k', p') # rest) =
     (if k' = k then (k, p) # rest else (k', p') # putKey k p rest)"

definition removeKey :: "key \<Rightarrow> (key \<times> property) list \<Rightarrow> (key \<times> property) list" where
  "removeKey k ps = filter (\<lambda>kp. fst kp \<noteq> k) ps"

definition setObj :: "ref \<Rightarrow> jsobj \<Rightarrow> ('w, 'u) heap \<Rightarrow> ('w, 'u) heap" where
  "setObj r obj h = h\<lparr>objs := (objs h)(r := obj)\<rparr>"

definition isArray :: "('w, 'u) heap \<Rightarrow> ref \<Rightarrow> bool" where
  "isArray h r \<longleftrightarrow> kind (objs h r) = ArrayObject"

text \<open>
  Modelled from the spec: \<open>hasOwn\<close> of \<open>util\<close> is not among the sources; the test for an own
  property.
\<close>

definition hasOwn :: "('w, 'u) heap \<Rightarrow> ref \<Rightarrow> key \<Rightarrow> bool" where
  "hasOwn h r k =
     (case k of
        Index i \<Rightarrow> if isArray h r then i < length (elems (objs h r))
                   else map_of (props (objs h r)) k \<noteq> None
      | Name s \<Rightarrow> map_of (props (objs h r)) k \<noteq> None)"

text \<open>
  \<open>obj[key]\<close>, \<open>obj[key] = v\<close> and \<open>delete obj[key]\<close> in strict code: a write to a property
  that is not writable, or has no setter, or would extend an object that is not
  extensible, raises, and so does deleting a property that is not configurable. The
  elements of a read-only array are neither writable nor configurable.
\<close>

definition getProp ::
  "('w, 'u) calls \<Rightarrow> ref \<Rightarrow> key \<Rightarrow> ('w, 'u) heap \<Rightarrow> (val \<times> ('w, 'u) heap) outcome" where
  "getProp rc r k h =
     (if isArray h r \<and> isValidArrayIndex k
      then (case k of Index i \<Rightarrow> Done (elemAt (elems (objs h r)) i, h) | Name s \<Rightarrow> Done (Undefined, h))
      else (case map_of (props (objs h r)) k of
              None \<Rightarrow> Done (Undefined, h)
            | Some (DataProp v w e c) \<Rightarrow> Done (v, h)
            | Some (AccessorProp g s e c) \<Rightarrow>
                (case g of None \<Rightarrow> Done (Undefined, h) | Some f \<Rightarrow> r_callFn rc f r [] h)))"

definition putProp ::
  "('w, 'u) calls \<Rightarrow> ref \<Rightarrow> key \<Rightarrow> val \<Rightarrow> ('w, 'u) heap \<Rightarrow> ('w, 'u) heap outcome" where
  "putProp rc r k v h =
     (let obj = objs h r in
      if isArray h r \<and> isValidArrayIndex k
      then (case k of
              Index i \<Rightarrow>
                if readOnlyElems obj then Raise TypeError
                else if i < length (elems obj) then Done (setObj r (obj\<lparr>elems := (elems obj)[i := v]\<rparr>) h)
                else if MAX_ARRAY_LENGTH \<le> i then Raise Unmodelled
                else if extensible obj
                then Done (setObj r (obj\<lparr>elems := elems obj @ replicate (i - length (elems obj)) Undefined @ [v]\<rparr>) h)
                else Raise TypeError
            | Name s \<Rightarrow> Raise Unmodelled)
      else (case map_of (props obj) k of
              None \<Rightarrow>
                if extensible obj
                then Done (setObj r (obj\<lparr>props := putKey k (DataProp v True True True) (props obj)\<rparr>) h)
                else Raise TypeError
            | Some (DataProp old w e c) \<Rightarrow>
                if w then Done (setObj r (obj\<lparr>props := putKey k (DataProp v w e c) (props obj)\<rparr>) h)
                else Raise TypeError
            | Some (AccessorProp g s e c) \<Rightarrow>
                (case s of
                   None \<Rightarrow> Raise TypeError
                 | Some f \<Rightarrow> andThen (r_callFn rc f r [v] h) (\<lambda>res. Done (snd res)))))"

definition deleteProp :: "ref \<Rightarrow> key \<Rightarrow> ('w, 'u) heap \<Rightarrow> ('w, 'u) heap outcome" where
  "deleteProp r k h =
     (let obj = objs h r in
      if isArray h r \<and> isValidArrayIndex k
      then (case k of
              Index i \<Rightarrow>
                if i < length (elems obj)
                then (if readOnlyElems obj then Raise TypeError
                      else Done (setObj r (obj\<lparr>elems := (elems obj)[i := Undefined]\<rparr>) h))
                else Done h
            | Name s \<Rightarrow> Raise Unmodelled)
      else (case map_of (props obj) k of
              None \<Rightarrow> Done h
            | Some p \<Rightarrow>
                if configurable p then Done (setObj r (obj\<lparr>props := removeKey k (props obj)\<rparr>) h)
                else Raise TypeError))"

subsection \<open>Observer, observe, defineReactive\<close>

text \<open>
  The call \<open>Object.defineProperty(obj, key, {enumerable: true, configurable: true, get, set})\<close>
  at the end of \<open>defineReactive\<close>, with the closure that \<open>get\<close> and \<open>set\<close> share.
\<close>

definition installAccessor ::
  "ref \<Rightarrow> key \<Rightarrow> closure \<Rightarrow> ('w, 'u) heap \<Rightarrow> ('w, 'u) heap outcome" where
  "installAccessor obj k cl h =
     (let holder = objs h obj in
      if map_of (props holder) k = None \<and> \<not> extensible holder then Raise TypeError
      else
        let c = nextClosure h;
            h1 = h\<lparr>closures := (closures h)(c := cl), nextClosure := c + 1\<rparr>
        in Done (setObj obj
                   (holder\<lparr>props := putKey k
                       (AccessorProp (Some (ReactiveGetter c)) (Some (ReactiveSetter c)) True True)
                       (props holder)\<rparr>) h1))"

definition defineReactive ::
  "('w, 'u) oenv \<Rightarrow> ('w, 'u) calls \<Rightarrow> ref \<Rightarrow> key \<Rightarrow> val \<Rightarrow> fnref option \<Rightarrow> bool \<Rightarrow>
   ('w, 'u) heap \<Rightarrow> ('w, 'u) heap outcome" where
  "defineReactive env rc obj k v custom shal h =
     (case newDep h of (d, h1) \<Rightarrow>
        if isArray h1 obj \<and> isValidArrayIndex k then Raise Unmodelled
        else
          let property = map_of (props (objs h1 obj)) k in
          if (case property of None \<Rightarrow> False | Some p \<Rightarrow> \<not> configurable p) then Done h1
          else
            let g = (case property of None \<Rightarrow> None | Some p \<Rightarrow> getterOf p);
                s = (case property of None \<Rightarrow> None | Some p \<Rightarrow> setterOf p)
            in andThen (if shal then Done (None, h1) else r_observe rc v False h1)
                 (\<lambda>res. installAccessor obj k
                           \<lparr>c_dep = d, c_val = v, childOb = fst res, c_getter = g, c_setter = s,
                            customSetter = custom, shallow = shal\<rparr>
                           (snd res)))"

text \<open>\<open>walk\<close> reads \<open>Object.keys(obj)\<close> once and then visits the keys in that order.\<close>

fun walkKeys ::
  "('w, 'u) oenv \<Rightarrow> ('w, 'u) calls \<Rightarrow> ref \<Rightarrow> key list \<Rightarrow> ('w, 'u) heap \<Rightarrow> ('w, 'u) heap outcome" where
  "walkKeys env rc obj [] h = Done h"
| "walkKeys env rc obj (k # ks) h =
     (case getProp rc obj k h of
        OutOfFuel \<Rightarrow> OutOfFuel
      | Raise e \<Rightarrow> Raise e
      | Done res \<Rightarrow>
          (case defineReactive env rc obj k (fst res) None False (snd res) of
             OutOfFuel \<Rightarrow> OutOfFuel
           | Raise e \<Rightarrow> Raise e
           | Done h2 \<Rightarrow> walkKeys env rc obj ks h2))"

definition walk ::
  "('w, 'u) oenv \<Rightarrow> ('w, 'u) calls \<Rightarrow> ref \<Rightarrow> ('w, 'u) heap \<Rightarrow> ('w, 'u) heap outcome" where
  "walk env rc obj h =
     (let keys = map fst (filter (\<lambda>kp. enumerable (snd kp)) (props (objs h obj)))
      in walkKeys env rc obj keys h)"

text \<open>
  \<open>observeArray\<close> reads the length once and then \<open>items[i]\<close> in every round. \<open>items\<close> is given
  as a view of the heap: the elements of a heap array, or a fixed list of arguments.
\<close>

function observeArrayLoop ::
  "('w, 'u) calls \<Rightarrow> (('w, 'u) heap \<Rightarrow> val list) \<Rightarrow> nat \<Rightarrow> nat \<Rightarrow> ('w, 'u) heap \<Rightarrow>
   ('w, 'u) heap outcome" where
  "observeArrayLoop rc items i l h =
     (if i < l then
        (case r_observe rc (elemAt (items h) i) False h of
           OutOfFuel \<Rightarrow> OutOfFuel
         | Raise e \<Rightarrow> Raise e
         | Done res \<Rightarrow> observeArrayLoop rc items (i + 1) l (snd res))
      else Done h)"
  by pat_completeness auto
termination
  by (relation "measure (\<lambda>(rc, items, i, l, h). l - i)") auto

declare observeArrayLoop.simps [simp del]

definition observeArray ::
  "('w, 'u) calls \<Rightarrow> (('w, 'u) heap \<Rightarrow> val list) \<Rightarrow> ('w, 'u) heap \<Rightarrow> ('w, 'u) heap outcome" where
  "observeArray rc items h = observeArrayLoop rc items 0 (length (items h)) h"

text \<open>
  The constructor of \<open>Observer\<close>. \<open>def(value, '__ob__', this)\<close> defines the property, which
  raises on an object that is not extensible and has no such property yet.
\<close>

definition newObserver ::
  "('w, 'u) oenv \<Rightarrow> ('w, 'u) calls \<Rightarrow> ref \<Rightarrow> ('w, 'u) heap \<Rightarrow> (obref \<times> ('w, 'u) heap) outcome" where
  "newObserver env rc v h =
     (let this = nextOb h in
      case newDep h of (d, h1) \<Rightarrow>
        let h2 = h1\<lparr>observers := (observers h1)(this := \<lparr>ob_value = v, ob_dep = d, vmCount = 0\<rparr>),
                    nextOb := this + 1\<rparr>;
            obj = objs h2 v
        in if ob obj = NoOb \<and> \<not> extensible obj then Raise TypeError
           else
             let h3 = setObj v (obj\<lparr>ob := ObInst this\<rparr>) h2 in
             if isArray h3 v
             then andThen (observeArray rc (\<lambda>hh. elems (objs hh v))
                             (setObj v ((objs h3 v)\<lparr>augmented := True\<rparr>) h3))
                    (\<lambda>h4. Done (this, h4))
             else andThen (walk env rc v h3) (\<lambda>h4. Done (this, h4)))"

text \<open>\<open>ob.vmCount++\<close>.\<close>

definition incVmCount :: "obref \<Rightarrow> ('w, 'u) heap \<Rightarrow> ('w, 'u) heap" where
  "incVmCount b h =
     h\<lparr>observers := (observers h)(b := (observers h b)\<lparr>vmCount := vmCount (observers h b) + 1\<rparr>)\<rparr>"

definition observe ::
  "('w, 'u) oenv \<Rightarrow> ('w, 'u) calls \<Rightarrow> val \<Rightarrow> bool \<Rightarrow> ('w, 'u) heap \<Rightarrow>
   (obref option \<times> ('w, 'u) heap) outcome" where
  "observe env rc v asRootData h =
     (case v of
        Obj r \<Rightarrow>
          if kind (objs h r) = VNodeObject then Done (None, h)
          else
            andThen
              (case ob (objs h r) of
                 ObInst existing \<Rightarrow> Done (Some existing, h)
               | _ \<Rightarrow>
                   if shouldConvert h \<and> \<not> serverRendering env \<and>
                      (isArray h r \<or> kind (objs h r) = PlainObject) \<and>
                      extensible (objs h r) \<and> \<not> isVue (objs h r)
                   then andThen (newObserver env rc r h) (\<lambda>res. Done (Some (fst res), snd res))
                   else Done (None, h))
              (\<lambda>res. case res of (result, h1) \<Rightarrow>
                 (case result of
                    Some b \<Rightarrow>
                      if asRootData then Done (result, incVmCount b h1) else Done (result, h1)
                  | None \<Rightarrow> Done (result, h1)))
      | _ \<Rightarrow> Done (None, h))"

subsection \<open>The accessor pair installed by defineReactive\<close>

text \<open>\<open>getter ? getter.call(obj) : val\<close>, the first line of the getter and of the setter.\<close>

definition currentValue ::
  "('w, 'u) calls \<Rightarrow> cref \<Rightarrow> ref \<Rightarrow> ('w, 'u) heap \<Rightarrow> (val \<times> ('w, 'u) heap) outcome" where
  "currentValue rc c obj h =
     (case c_getter (closures h c) of
        Some g \<Rightarrow> r_callFn rc g obj [] h
      | None \<Rightarrow> Done (c_val (closures h c), h))"

text \<open>
  One round of the loop of \<open>dependArray\<close>: \<open>e && e.__ob__ && e.__ob__.dep.depend()\<close>, then
  the recursive call when \<open>e\<close> is an array. A truthy \<open>__ob__\<close> that is not an Observer has no
  \<open>dep\<close>, so the call on it raises.
\<close>

definition dependElement ::
  "('w, 'u) oenv \<Rightarrow> ('w, 'u) calls \<Rightarrow> val \<Rightarrow> ('w, 'u) heap \<Rightarrow> ('w, 'u) heap outcome" where
  "dependElement env rc e h =
     (case e of
        Obj x \<Rightarrow>
          andThen
            (case ob (objs h x) of
               NoOb \<Rightarrow> Done h
             | ObInst b \<Rightarrow> Done (depend env (ob_dep (observers h b)) h)
             | ObOther other \<Rightarrow> if truthy other then Raise TypeError else Done h)
            (\<lambda>h1. if isArray h1 x then r_dependArray rc x h1 else Done h1)
      | _ \<Rightarrow> Done h)"

function dependArrayLoop ::
  "('w, 'u) oenv \<Rightarrow> ('w, 'u) calls \<Rightarrow> ref \<Rightarrow> nat \<Rightarrow> nat \<Rightarrow> ('w, 'u) heap \<Rightarrow> ('w, 'u) heap outcome" where
  "dependArrayLoop env rc arr i l h =
     (if i < l then
        (case dependElement env rc (elemAt (elems (objs h arr)) i) h of
           OutOfFuel \<Rightarrow> OutOfFuel
         | Raise e \<Rightarrow> Raise e
         | Done h1 \<Rightarrow> dependArrayLoop env rc arr (i + 1) l h1)
      else Done h)"
  by pat_completeness auto
termination
  by (relation "measure (\<lambda>(env, rc, arr, i, l, h). l - i)") auto

declare dependArrayLoop.simps [simp del]

definition dependArray ::
  "('w, 'u) oenv \<Rightarrow> ('w, 'u) calls \<Rightarrow> ref \<Rightarrow> ('w, 'u) heap \<Rightarrow> ('w, 'u) heap outcome" where
  "dependArray env rc arr h = dependArrayLoop env rc arr 0 (length (elems (objs h arr))) h"

definition reactiveGetter ::
  "('w, 'u) oenv \<Rightarrow> ('w, 'u) calls \<Rightarrow> cref \<Rightarrow> ref \<Rightarrow> ('w, 'u) heap \<Rightarrow>
   (val \<times> ('w, 'u) heap) outcome" where
  "reactiveGetter env rc c obj h =
     andThen (currentValue rc c obj h)
       (\<lambda>res. case res of (v, h1) \<Rightarrow>
          (case target h1 of
             Target w \<Rightarrow>
               let h2 = depend env (c_dep (closures h1 c)) h1 in
               (case childOb (closures h2 c) of
                  Some child \<Rightarrow>
                    let h3 = depend env (ob_dep (observers h2 child)) h2 in
                    (case v of
                       Obj r \<Rightarrow>
                         if isArray h3 r
                         then andThen (dependArray env rc r h3) (\<lambda>h4. Done (v, h4))
                         else Done (v, h3)
                     | _ \<Rightarrow> Done (v, h3))
                | None \<Rightarrow> Done (v, h2))
           | _ \<Rightarrow> Done (v, h1)))"

definition reactiveSetter ::
  "('w, 'u) oenv \<Rightarrow> ('w, 'u) calls \<Rightarrow> cref \<Rightarrow> ref \<Rightarrow> val \<Rightarrow> ('w, 'u) heap \<Rightarrow>
   ('w, 'u) heap outcome" where
  "reactiveSetter env rc c obj newVal h =
     andThen (currentValue rc c obj h)
       (\<lambda>res. case res of (v, h1) \<Rightarrow>
          if strictEq newVal v \<or> (\<not> strictEq newVal newVal \<and> \<not> strictEq v v) then Done h1
          else
            let h2 = (case customSetter (closures h1 c) of
                        Some f \<Rightarrow> if \<not> prodBuild env then callCustom env f h1 else h1
                      | None \<Rightarrow> h1)
            in andThen
                 (case c_setter (closures h2 c) of
                    Some s \<Rightarrow> andThen (r_callFn rc s obj [newVal] h2) (\<lambda>r. Done (snd r))
                  | None \<Rightarrow> Done (h2\<lparr>closures := (closures h2)(c := (closures h2 c)\<lparr>c_val := newVal\<rparr>)\<rparr>))
                 (\<lambda>h3. andThen
                    (if shallow (closures h3 c) then Done (None, h3) else r_observe rc newVal False h3)
                    (\<lambda>r. case r of (child, h4) \<Rightarrow>
                       Done (notify env (c_dep (closures h4 c))
                               (h4\<lparr>closures := (closures h4)(c := (closures h4 c)\<lparr>childOb := child\<rparr>)\<rparr>)))))"

definition callFn ::
  "('w, 'u) oenv \<Rightarrow> ('w, 'u) calls \<Rightarrow> func \<Rightarrow> ref \<Rightarrow> val list \<Rightarrow> ('w, 'u) heap \<Rightarrow>
   (val \<times> ('w, 'u) heap) outcome" where
  "callFn env rc f this args h =
     (case f of
        UserFn u \<Rightarrow> Done (callUser env u this args h)
      | ReactiveGetter c \<Rightarrow> reactiveGetter env rc c this h
      | ReactiveSetter c \<Rightarrow>
          andThen (reactiveSetter env rc c this (case args of [] \<Rightarrow> Undefined | a # rest \<Rightarrow> a) h)
            (\<lambda>h1. Done (Undefined, h1)))"

primrec level :: "nat \<Rightarrow> ('w, 'u) oenv \<Rightarrow> ('w, 'u) calls" where
  "level 0 env =
     \<lparr>r_observe = (\<lambda>v a h. OutOfFuel), r_callFn = (\<lambda>f this args h. OutOfFuel),
      r_dependArray = (\<lambda>arr h. OutOfFuel)\<rparr>"
| "level (Suc n) env =
     \<lparr>r_observe = observe env (level n env), r_callFn = callFn env (level n env),
      r_dependArray = dependArray env (level n env)\<rparr>"

subsection \<open>set and del\<close>

text \<open>
  \<open>Array.prototype.splice\<close> on the elements, in strict code. It raises \<open>TypeError\<close> on a
  read-only array, where even the closing write of \<open>length\<close> is refused, and on an array
  that is not extensible when the array would grow; it raises \<open>RangeError\<close> when the
  length would exceed \<open>2\<^sup>3\<^sup>2 - 1\<close>. Arrays are dense here: a hole is an element that is
  \<open>undefined\<close>, which the engine tells apart only on an array that is not extensible,
  where it refuses to fill a hole.
\<close>

definition nativeSplice ::
  "ref \<Rightarrow> nat \<Rightarrow> nat \<Rightarrow> val list \<Rightarrow> ('w, 'u) heap \<Rightarrow> ('w, 'u) heap outcome" where
  "nativeSplice arr start deleteCount inserted h =
     (let obj = objs h arr;
          xs = elems obj;
          ys = take start xs @ inserted @ drop (start + deleteCount) xs
      in if readOnlyElems obj then Raise TypeError
         else if \<not> extensible obj \<and> length xs < length ys then Raise TypeError
         else if MAX_ARRAY_LENGTH < length ys then Raise RangeError
         else Done (setObj arr (obj\<lparr>elems := ys\<rparr>) h))"

text \<open>
  Modelled from the spec: the \<open>splice\<close> of \<open>arrayMethods\<close> (observer/array.js is not among the
  sources). The spec, section 4.1: the wrapped versions "(1) perform the original mutation,
  (2) observe any newly inserted elements, and (3) notify the collection's root
  Dependency". The Observer is the one under \<open>__ob__\<close> of the array.
\<close>

definition patchedSplice ::
  "('w, 'u) oenv \<Rightarrow> ('w, 'u) calls \<Rightarrow> ref \<Rightarrow> nat \<Rightarrow> nat \<Rightarrow> val list \<Rightarrow> ('w, 'u) heap \<Rightarrow>
   ('w, 'u) heap outcome" where
  "patchedSplice env rc arr start deleteCount inserted h =
     andThen (nativeSplice arr start deleteCount inserted h)
       (\<lambda>h1. case ob (objs h1 arr) of
                ObInst b \<Rightarrow>
                  andThen (observeArray rc (\<lambda>hh. inserted) h1)
                    (\<lambda>h2. Done (notify env (ob_dep (observers h2 b)) h2))
              | _ \<Rightarrow> Raise TypeError)"

text \<open>\<open>target.splice(...)\<close>: the patched method on an augmented array, the native one otherwise.\<close>

definition arraySplice ::
  "('w, 'u) oenv \<Rightarrow> ('w, 'u) calls \<Rightarrow> ref \<Rightarrow> nat \<Rightarrow> nat \<Rightarrow> val list \<Rightarrow> ('w, 'u) heap \<Rightarrow>
   ('w, 'u) heap outcome" where
  "arraySplice env rc arr start deleteCount inserted h =
     (if augmented (objs h arr) then patchedSplice env rc arr start deleteCount inserted h
      else nativeSplice arr start deleteCount inserted h)"

text \<open>
  Modelled from the spec: \<open>warn\<close> of \<open>util\<close> is not among the sources; it reports a diagnostic
  through a side channel, recorded here in \<open>warned\<close>. Both call sites are guarded by
  \<open>process.env.NODE_ENV !== 'production'\<close>, which is part of \<open>warn\<close> below.
\<close>

definition addWarning :: string where
  "addWarning = ''Avoid adding reactive properties to a Vue instance or its root $data '' @
                ''at runtime - declare it upfront in the data option.''"

definition delWarning :: string where
  "delWarning = ''Avoid deleting properties on a Vue instance or its root $data '' @
                ''- just set it to null.''"

definition warn :: "('w, 'u) oenv \<Rightarrow> string \<Rightarrow> ('w, 'u) heap \<Rightarrow> ('w, 'u) heap" where
  "warn env msg h = (if \<not> prodBuild env then h\<lparr>warned := warned h @ [msg]\<rparr> else h)"

text \<open>
  \<open>target.length = Math.max(target.length, key)\<close> in strict code: the write raises
  \<open>TypeError\<close> when \<open>length\<close> is read-only, also when it would not change, and \<open>RangeError\<close>
  when the new length is above \<open>2\<^sup>3\<^sup>2 - 1\<close>. An array that is not extensible can still
  be lengthened.
\<close>

definition extendLength :: "ref \<Rightarrow> nat \<Rightarrow> ('w, 'u) heap \<Rightarrow> ('w, 'u) heap outcome" where
  "extendLength arr n h =
     (let obj = objs h arr
      in if readOnlyElems obj then Raise TypeError
         else if MAX_ARRAY_LENGTH < max (length (elems obj)) n then Raise RangeError
         else Done (setObj arr
                (obj\<lparr>elems := elems obj @ replicate (n - length (elems obj)) Undefined\<rparr>) h))"

text \<open>
  \<open>set\<close> (named \<open>set_prop\<close> here, \<open>set\<close> being the set of elements of a list) and \<open>del\<close>.
  \<open>ob && ob.vmCount\<close> is false of a value under \<open>__ob__\<close> that is not an Observer, and
  \<open>defineReactive(ob.value, ...)\<close> or \<open>ob.dep.notify()\<close> on such a value raises.
\<close>

definition set_prop ::
  "('w, 'u) oenv \<Rightarrow> ('w, 'u) calls \<Rightarrow> ref \<Rightarrow> key \<Rightarrow> val \<Rightarrow> ('w, 'u) heap \<Rightarrow>
   (val \<times> ('w, 'u) heap) outcome" where
  "set_prop env rc tgt k v h =
     (if isArray h tgt \<and> isValidArrayIndex k then
        (case k of
           Index i \<Rightarrow>
             andThen (extendLength tgt i h)
               (\<lambda>h1. andThen (arraySplice env rc tgt i 1 [v] h1) (\<lambda>h2. Done (v, h2)))
         | Name s \<Rightarrow> Raise Unmodelled)
      else if hasOwn h tgt k then
        andThen (putProp rc tgt k v h) (\<lambda>h1. Done (v, h1))
      else
        (case ob (objs h tgt) of
           ObInst b \<Rightarrow>
             if isVue (objs h tgt) \<or> vmCount (observers h b) \<noteq> 0
             then Done (v, warn env addWarning h)
             else andThen (defineReactive env rc (ob_value (observers h b)) k v None False h)
                    (\<lambda>h1. Done (v, notify env (ob_dep (observers h1 b)) h1))
         | ObOther other \<Rightarrow>
             if isVue (objs h tgt) then Done (v, warn env addWarning h)
             else if \<not> truthy other then andThen (putProp rc tgt k v h) (\<lambda>h1. Done (v, h1))
             else Raise TypeError
         | NoOb \<Rightarrow>
             if isVue (objs h tgt) then Done (v, warn env addWarning h)
             else andThen (putProp rc tgt k v h) (\<lambda>h1. Done (v, h1))))"

definition del ::
  "('w, 'u) oenv \<Rightarrow> ('w, 'u) calls \<Rightarrow> ref \<Rightarrow> key \<Rightarrow> ('w, 'u) heap \<Rightarrow> ('w, 'u) heap outcome" where
  "del env rc tgt k h =
     (if isArray h tgt \<and> isValidArrayIndex k then
        (case k of
           Index i \<Rightarrow> arraySplice env rc tgt i 1 [] h
         | Name s \<Rightarrow> Raise Unmodelled)
      else
        (case ob (objs h tgt) of
           ObInst b \<Rightarrow>
             if isVue (objs h tgt) \<or> vmCount (observers h b) \<noteq> 0
             then Done (warn env delWarning h)
             else if \<not> hasOwn h tgt k then Done h
             else andThen (deleteProp tgt k h)
                    (\<lambda>h1. Done (notify env (ob_dep (observers h1 b)) h1))
         | ObOther other \<Rightarrow>
             if isVue (objs h tgt) then Done (warn env delWarning h)
             else if \<not> hasOwn h tgt k then Done h
             else andThen (deleteProp tgt k h)
                    (\<lambda>h1. if \<not> truthy other then Done h1 else Raise TypeError)
         | NoOb \<Rightarrow>
             if isVue (objs h tgt) then Done (warn env delWarning h)
             else if \<not> hasOwn h tgt k then Done h
             else deleteProp tgt k h))"

subsection \<open>Notions used in the statements about the observer\<close>

text \<open>The code of the client emits no diagnostic; the recursive calls emit none.\<close>

definition quietEnv :: "('w, 'u) oenv \<Rightarrow> bool" where
  "quietEnv env \<longleftrightarrow>
     (\<forall>f this args h. warned (snd (callUser env f this args h)) = warned h) \<and>
     (\<forall>f h. warned (callCustom env f h) = warned h) \<and>
     (\<forall>w h. warned (update env w h) = warned h) \<and>
     (\<forall>w d h. warned (addDep env w d h) = warned h)"

definition quietCalls :: "('w, 'u) calls \<Rightarrow> bool" where
  "quietCalls rc \<longleftrightarrow>
     (\<forall>v a h res h'. r_observe rc v a h = Done (res, h') \<longrightarrow> warned h' = warned h) \<and>
     (\<forall>f this args h res h'. r_callFn rc f this args h = Done (res, h') \<longrightarrow> warned h' = warned h) \<and>
     (\<forall>arr h h'. r_dependArray rc arr h = Done h' \<longrightarrow> warned h' = warned h)"

subsection \<open>Example heaps and clients\<close>

definition emptyObj :: jsobj where
  "emptyObj =
     \<lparr>kind = PlainObject, extensible = True, isVue = False, ob = NoOb, props = [], elems = [],
      readOnlyElems = False, augmented = False\<rparr>"

definition emptyHeap :: "(nat, nat list) heap" where
  "emptyHeap =
     \<lparr>objs = (\<lambda>r. emptyObj),
      observers = (\<lambda>b. \<lparr>ob_value = 0, ob_dep = 0, vmCount = 0\<rparr>),
      nextOb = 0,
      closures = (\<lambda>c. \<lparr>c_dep = 0, c_val = Undefined, childOb = None, c_getter = None,
                         c_setter = None, customSetter = None, shallow = False\<rparr>),
      nextClosure = 0, subs = (\<lambda>d. []), uid = 0, target = Null_target, targetStack = [],
      shouldConvert = True, warned = [], world = []\<rparr>"

text \<open>
  A client whose watchers record their \<open>update\<close> in \<open>world\<close> and subscribe through \<open>addSub\<close>;
  and one whose \<open>update\<close> also empties every subscriber list.
\<close>

definition loggingEnv :: "bool \<Rightarrow> (nat, nat list) oenv" where
  "loggingEnv isProd =
     \<lparr>prodBuild = isProd, serverRendering = False, hasProto = True,
      callUser = (\<lambda>f this args h. (Undefined, h)),
      callCustom = (\<lambda>f h. h),
      update = (\<lambda>w h. h\<lparr>world := world h @ [w]\<rparr>),
      addDep = (\<lambda>w d h. addSub d w h)\<rparr>"

definition unsubscribingEnv :: "(nat, nat list) oenv" where
  "unsubscribingEnv =
     (loggingEnv False)\<lparr>update := (\<lambda>w h. h\<lparr>world := world h @ [w], subs := (\<lambda>d. [])\<rparr>)\<rparr>"

text \<open>Object 0 was observed and then frozen, and conversion has been disabled.\<close>

definition frozenObserved :: "(nat, nat list) heap" where
  "frozenObserved =
     emptyHeap\<lparr>objs := (objs emptyHeap)(0 := emptyObj\<lparr>extensible := False, ob := ObInst 0\<rparr>),
               nextOb := 1, uid := 1, shouldConvert := False\<rparr>"

text \<open>Object 0 is frozen and has never been observed.\<close>

definition frozenPlain :: "(nat, nat list) heap" where
  "frozenPlain = emptyHeap\<lparr>objs := (objs emptyHeap)(0 := emptyObj\<lparr>extensible := False\<rparr>)\<rparr>"

text \<open>
  Object 0 has the reactive field \<open>a\<close>, which holds \<open>NaN\<close>; watcher 4 is subscribed to the
  dependency of the field.
\<close>

definition nanHeap :: "(nat, nat list) heap" where
  "nanHeap =
     emptyHeap\<lparr>closures := (closures emptyHeap)
                  (0 := \<lparr>c_dep = 0, c_val = Number NaN, childOb = None, c_getter = None,
                         c_setter = None, customSetter = None, shallow = False\<rparr>),
               nextClosure := 1, uid := 1, subs := (subs emptyHeap)(0 := [4]),
               objs := (objs emptyHeap)
                  (0 := emptyObj\<lparr>props := [(Name ''a'',
                         AccessorProp (Some (ReactiveGetter 0)) (Some (ReactiveSetter 0)) True True)]\<rparr>)\<rparr>"


text \<open>Object 0 is an observed array whose Observer has \<open>vmCount = 1\<close>.\<close>

definition rootArrayHeap :: "(nat, nat list) heap" where
  "rootArrayHeap =
     emptyHeap\<lparr>objs := (objs emptyHeap)
                  (0 := emptyObj\<lparr>kind := ArrayObject, ob := ObInst 0, elems := [Number (Num 1)],
                                 augmented := True\<rparr>),
               observers := (observers emptyHeap)(0 := \<lparr>ob_value = 0, ob_dep = 0, vmCount = 1\<rparr>),
               nextOb := 1, uid := 1, subs := (subs emptyHeap)(0 := [4])\<rparr>"

text \<open>The same array, frozen after it was observed.\<close>

definition frozenArrayHeap :: "(nat, nat list) heap" where
  "frozenArrayHeap =
     rootArrayHeap\<lparr>objs := (objs rootArrayHeap)
        (0 := (objs rootArrayHeap 0)\<lparr>extensible := False, readOnlyElems := True\<rparr>)\<rparr>"

section \<open>Properties of the scheduler\<close>

subsection \<open>The backward scan and the insertion slot\<close>

lemma scanBack_stop:
  "\<not> (i > int idx \<and> idOf env (q ! nat i) > ident) \<Longrightarrow> scanBack env q idx ident i = i"
  by (subst scanBack.simps) auto

lemma scanBack_step:
  "i > int idx \<Longrightarrow> idOf env (q ! nat i) > ident \<Longrightarrow>
   scanBack env q idx ident i = scanBack env q idx ident (i - 1)"
  by (subst scanBack.simps) simp

lemma scanBack_bounds:
  "int idx \<le> i \<Longrightarrow> int idx \<le> scanBack env q idx ident i \<and> scanBack env q idx ident i \<le> i"
proof (induction env q idx ident i rule: scanBack.induct)
  case (1 env q idx ident i)
  show ?case
  proof (cases "i > int idx \<and> idOf env (q ! nat i) > ident")
    case True
    then have "int idx \<le> i - 1" by simp
    from "1.IH"[OF True this] True show ?thesis
      by (simp add: scanBack_step)
  next
    case False
    with "1.prems" show ?thesis by (simp add: scanBack_stop)
  qed
qed

lemma scanBack_all_greater:
  "int idx \<le> i \<Longrightarrow> \<forall>j. idx < j \<and> int j \<le> i \<longrightarrow> ident < idOf env (q ! j)
     \<Longrightarrow> scanBack env q idx ident i = int idx"
proof (induction env q idx ident i rule: scanBack.induct)
  case (1 env q idx ident i)
  show ?case
  proof (cases "i > int idx")
    case True
    then have "idx < nat i \<and> int (nat i) \<le> i" by simp
    with "1.prems"(2) have g: "idOf env (q ! nat i) > ident" by blast
    have "scanBack env q idx ident (i - 1) = int idx"
      using "1.IH" True g "1.prems" by simp
    then show ?thesis using True g by (simp add: scanBack_step)
  next
    case False
    then show ?thesis using "1.prems" by (simp add: scanBack_stop)
  qed
qed

lemma nth_in_drop: "k \<le> j \<Longrightarrow> j < length xs \<Longrightarrow> xs ! j \<in> set (drop k xs)"
proof -
  assume a: "k \<le> j" "j < length xs"
  then have "drop k xs ! (j - k) = xs ! j" by simp
  moreover have "j - k < length (drop k xs)" using a by simp
  ultimately show ?thesis by (metis nth_mem)
qed

lemma enqueue_fields [simp]:
  "waiting (enqueue env w s) = waiting s"
  "flushing (enqueue env w s) = flushing s"
  "index (enqueue env w s) = index s"
  "client (enqueue env w s) = client s"
  "runLog (enqueue env w s) = runLog s"
  "warnings (enqueue env w s) = warnings s"
  "ticks (enqueue env w s) = ticks s"
  "emitted (enqueue env w s) = emitted s"
  "circular (enqueue env w s) = circular s"
  "activatedChildren (enqueue env w s) = activatedChildren s"
  "has (enqueue env w s) = (has s)(idOf env w \<mapsto> True_mark)"
  by (simp_all add: enqueue_def Let_def)

lemma enqueue_queue:
  "queue (enqueue env w s) =
     (if flushing s then spliceIn (queue s) (insertPos env w s) w else queue s @ [w])"
  by (simp add: enqueue_def Let_def insertPos_def)

lemma insertPos_bounds:
  assumes "index s < length (queue s)"
  shows "index s < insertPos env w s \<and> insertPos env w s \<le> length (queue s)"
proof -
  have "int (index s) \<le> int (length (queue s)) - 1" using assms by simp
  from scanBack_bounds[OF this, of env "queue s" "idOf env w"]
  show ?thesis unfolding insertPos_def by auto
qed

lemma insertPos_next:
  assumes "index s < length (queue s)"
      and "\<forall>x\<in>set (drop (Suc (index s)) (queue s)). idOf env w < idOf env x"
  shows "insertPos env w s = Suc (index s)"
proof -
  have le: "int (index s) \<le> int (length (queue s)) - 1" using assms(1) by simp
  have "\<forall>j. index s < j \<and> int j \<le> int (length (queue s)) - 1 \<longrightarrow> idOf env w < idOf env (queue s ! j)"
  proof (intro allI impI)
    fix j assume j: "index s < j \<and> int j \<le> int (length (queue s)) - 1"
    then have "j < length (queue s)" by simp
    moreover have "Suc (index s) \<le> j" using j by simp
    ultimately have "queue s ! j \<in> set (drop (Suc (index s)) (queue s))"
      by (simp add: nth_in_drop)
    with assms(2) show "idOf env w < idOf env (queue s ! j)" by blast
  qed
  from scanBack_all_greater[OF le this] show ?thesis by (simp add: insertPos_def)
qed

lemma insertPos_last:
  assumes "index s < length (queue s)"
      and "\<forall>x\<in>set (drop (Suc (index s)) (queue s)). idOf env x < idOf env w"
  shows "insertPos env w s = length (queue s)"
proof -
  let ?i = "int (length (queue s)) - 1"
  have "\<not> (?i > int (index s) \<and> idOf env (queue s ! nat ?i) > idOf env w)"
  proof
    assume a: "?i > int (index s) \<and> idOf env (queue s ! nat ?i) > idOf env w"
    then have "Suc (index s) \<le> nat ?i" "nat ?i < length (queue s)" by auto
    then have "queue s ! nat ?i \<in> set (drop (Suc (index s)) (queue s))"
      by (simp add: nth_in_drop)
    with assms(2) a show False by fastforce
  qed
  from scanBack_stop[OF this] show ?thesis using assms(1) by (simp add: insertPos_def)
qed

lemma queueWatcher_waiting:
  "waiting s \<Longrightarrow> queueWatcher env flush w s =
     Some (if is_null (has s (idOf env w)) then enqueue env w s else s)"
  by (simp add: queueWatcher_def Let_def)

lemma queueWatcher_deferred:
  "production env \<or> async env \<Longrightarrow> queueWatcher env flush w s =
     Some (if is_null (has s (idOf env w))
           then (if waiting s then enqueue env w s
                 else (enqueue env w s)\<lparr>waiting := True, ticks := ticks s + 1\<rparr>)
           else s)"
  by (auto simp add: queueWatcher_def Let_def)

subsection \<open>What enqueuing during a pass preserves\<close>

lemma take_spliceIn: "k \<le> p \<Longrightarrow> p \<le> length xs \<Longrightarrow> take k (spliceIn xs p x) = take k xs"
  by (simp add: spliceIn_def min_def)

lemma drop_spliceIn:
  "k \<le> p \<Longrightarrow> p \<le> length xs \<Longrightarrow> drop k (spliceIn xs p x) = drop k (take p xs) @ x # drop p xs"
  by (simp add: spliceIn_def)

lemma subseq_drop_spliceIn:
  assumes "k \<le> p" "p \<le> length xs"
  shows "subseq (drop k xs) (drop k (spliceIn xs p x))"
proof -
  have "drop k xs = drop k (take p xs @ drop p xs)" by simp
  also have "\<dots> = drop k (take p xs) @ drop p xs" using assms by (simp del: append_take_drop_id)
  finally have "drop k xs = drop k (take p xs) @ drop p xs" .
  moreover have "subseq (drop k (take p xs) @ drop p xs) (drop k (take p xs) @ x # drop p xs)"
    by (rule list_emb_append_mono[OF subseq_order.order_refl list_emb_Cons[OF subseq_order.order_refl]])
  ultimately show ?thesis using assms by (simp add: drop_spliceIn)
qed

lemma subseq_mem:
  assumes "subseq xs ys" "x \<in> set xs"
  shows "x \<in> set ys"
proof -
  from list_emb_set[OF assms] obtain y where "y \<in> set ys" "x = y" by blast
  then show ?thesis by simp
qed

lemma length_spliceIn [simp]: "length (spliceIn xs p x) = Suc (length xs)"
  by (simp add: spliceIn_def)

lemma passExtends_refl: "waiting s \<Longrightarrow> index s < length (queue s) \<Longrightarrow> passExtends s s"
  by (simp add: passExtends_def)

lemma passExtends_trans:
  assumes ab: "passExtends a b" and bc: "passExtends b c"
  shows "passExtends a c"
proof -
  have i: "index b = index a" using ab by (simp add: passExtends_def)
  have "subseq (drop (Suc (index a)) (queue a)) (drop (Suc (index a)) (queue b))"
    using ab by (simp add: passExtends_def)
  moreover have "subseq (drop (Suc (index a)) (queue b)) (drop (Suc (index a)) (queue c))"
    using bc i by (simp add: passExtends_def)
  ultimately have "subseq (drop (Suc (index a)) (queue a)) (drop (Suc (index a)) (queue c))"
    by (rule subseq_order.order_trans)
  then show ?thesis using ab bc by (simp add: passExtends_def)
qed

lemma enqueue_extends:
  assumes "waiting s" "index s < length (queue s)"
  shows "passExtends s (enqueue env w s)"
proof (cases "flushing s")
  case False
  with assms show ?thesis by (auto simp add: passExtends_def enqueue_queue)
next
  case True
  from insertPos_bounds[OF assms(2), of env w]
  have b: "Suc (index s) \<le> insertPos env w s" "insertPos env w s \<le> length (queue s)" by auto
  show ?thesis using assms True take_spliceIn[OF b] subseq_drop_spliceIn[OF b]
    by (simp add: passExtends_def enqueue_queue)
qed

lemma queueWatcher_extends:
  assumes "waiting s" "index s < length (queue s)"
  shows "\<exists>s'. queueWatcher env flush w s = Some s' \<and> passExtends s s'"
  using assms enqueue_extends[OF assms] passExtends_refl[OF assms]
  by (simp add: queueWatcher_waiting)

lemma passExtends_pre: "passExtends s s' \<Longrightarrow> waiting s' \<and> index s' < length (queue s')"
  by (simp add: passExtends_def)

lemma queueAll_extends:
  "waiting s \<Longrightarrow> index s < length (queue s) \<Longrightarrow>
   \<exists>s'. queueAll (queueWatcher env flush) ws s = Some s' \<and> passExtends s s'"
proof (induction ws arbitrary: s)
  case Nil
  then show ?case by (simp add: passExtends_refl)
next
  case (Cons w ws)
  from queueWatcher_extends[OF Cons.prems, of env flush w]
  obtain s1 where s1: "queueWatcher env flush w s = Some s1" "passExtends s s1" by blast
  from passExtends_pre[OF s1(2)] Cons.IH[of s1]
  obtain s2 where s2: "queueAll (queueWatcher env flush) ws s1 = Some s2" "passExtends s1 s2" by blast
  show ?case using s1 s2 by (auto intro: passExtends_trans)
qed

lemma passExtends_client [simp]: "passExtends (s\<lparr>client := u\<rparr>) s' = passExtends s s'"
  by (simp add: passExtends_def)

lemma invoke_extends:
  assumes "waiting s" "index s < length (queue s)"
  shows "\<exists>s'. invoke env flush body s = Some s' \<and> passExtends s s'"
proof -
  obtain u ws where b: "body (client s) = (u, ws)" by (cases "body (client s)")
  from queueAll_extends[of "s\<lparr>client := u\<rparr>" env flush ws] assms
  show ?thesis by (simp add: invoke_def b)
qed

lemma runEntry_extends:
  assumes "waiting s" "index s < length (queue s)"
  shows "\<exists>s3. runEntry env flush w s = Some s3 \<and> waiting s3 \<and> runLog s3 = runLog s @ [w] \<and>
           warnings s3 = warnings s \<and> index s3 = index s \<and> index s < length (queue s3) \<and>
           take (Suc (index s)) (queue s3) = take (Suc (index s)) (queue s) \<and>
           subseq (drop (Suc (index s)) (queue s)) (drop (Suc (index s)) (queue s3))"
proof -
  have "\<exists>s1. (case before (watcher_at env w) of None \<Rightarrow> Some s | Some b \<Rightarrow> invoke env flush b s) = Some s1
          \<and> passExtends s s1"
    using invoke_extends[OF assms] passExtends_refl[OF assms] by (cases "before (watcher_at env w)") auto
  then obtain s1 where s1: "(case before (watcher_at env w) of None \<Rightarrow> Some s | Some b \<Rightarrow> invoke env flush b s) = Some s1"
      "passExtends s s1" by blast
  let ?s2 = "s1\<lparr>has := (has s1)(idOf env w \<mapsto> Null_mark), runLog := runLog s1 @ [w]\<rparr>"
  have pre: "waiting ?s2" "index ?s2 < length (queue ?s2)" using passExtends_pre[OF s1(2)] by simp_all
  from invoke_extends[OF pre, of env flush "run (watcher_at env w)"]
  obtain s3 where s3: "invoke env flush (run (watcher_at env w)) ?s2 = Some s3" "passExtends ?s2 s3" by blast
  have "runEntry env flush w s = Some s3" using s1(1) s3(1) by (simp add: runEntry_def Let_def)
  moreover have "waiting s3 \<and> runLog s3 = runLog s @ [w] \<and>
           warnings s3 = warnings s \<and> index s3 = index s \<and> index s < length (queue s3) \<and>
           take (Suc (index s)) (queue s3) = take (Suc (index s)) (queue s) \<and>
           subseq (drop (Suc (index s)) (queue s)) (drop (Suc (index s)) (queue s3))"
  proof -
    have i: "index s1 = index s" using s1(2) by (simp add: passExtends_def)
    have "subseq (drop (Suc (index s)) (queue s)) (drop (Suc (index s)) (queue s1))"
      using s1(2) by (simp add: passExtends_def)
    moreover have "subseq (drop (Suc (index s)) (queue s1)) (drop (Suc (index s)) (queue s3))"
      using s3(2) i by (simp add: passExtends_def)
    ultimately have "subseq (drop (Suc (index s)) (queue s)) (drop (Suc (index s)) (queue s3))"
      by (rule subseq_order.order_trans)
    then show ?thesis using s1(2) s3(2) by (simp add: passExtends_def)
  qed
  ultimately show ?thesis by blast
qed

lemma flushLoop_runs_tail:
  "(index s < length (queue s) \<longrightarrow> waiting s) \<Longrightarrow> flushLoop n env flush s = Some s' \<Longrightarrow>
   (\<exists>l. runLog s' = runLog s @ l \<and> (warnings s' = warnings s \<longrightarrow> subseq (drop (index s) (queue s)) l))"
proof (induction n arbitrary: s)
  case 0
  then show ?case by simp
next
  case (Suc n)
  show ?case
  proof (cases "index s < length (queue s)")
    case False
    with Suc.prems show ?thesis by simp
  next
    case True
    let ?w = "queue s ! index s"
    have wt: "waiting s" using Suc.prems(1) True by simp
    from runEntry_extends[OF wt True, of env flush ?w]
    obtain s3 where s3: "runEntry env flush ?w s = Some s3" "waiting s3" "runLog s3 = runLog s @ [?w]"
       "warnings s3 = warnings s" "index s3 = index s" "index s < length (queue s3)"
       "take (Suc (index s)) (queue s3) = take (Suc (index s)) (queue s)"
       "subseq (drop (Suc (index s)) (queue s)) (drop (Suc (index s)) (queue s3))" by blast
    have dr: "drop (index s) (queue s) = ?w # drop (Suc (index s)) (queue s)"
      using True by (simp add: Cons_nth_drop_Suc)
    have ext: "subseq (drop (index s) (queue s)) (?w # l)"
      if "subseq (drop (Suc (index s)) (queue s3)) l" for l
    proof -
      from s3(8) that have "subseq (drop (Suc (index s)) (queue s)) l"
        by (rule subseq_order.order_trans)
      then show ?thesis by (simp add: dr)
    qed
    let ?c = "(case circular s3 (idOf env ?w) of None \<Rightarrow> 0 | Some k \<Rightarrow> k) + 1"
    let ?s4 = "s3\<lparr>circular := (circular s3)(idOf env ?w \<mapsto> ?c)\<rparr>"
    consider (abort) "\<not> production env \<and> \<not> is_null (has s3 (idOf env ?w))" "?c > MAX_UPDATE_COUNT"
      | (count) "\<not> production env \<and> \<not> is_null (has s3 (idOf env ?w))" "\<not> ?c > MAX_UPDATE_COUNT"
      | (plain) "\<not> (\<not> production env \<and> \<not> is_null (has s3 (idOf env ?w)))" by blast
    then show ?thesis
    proof cases
      case abort
      with Suc.prems(2) True s3(1) have "s' = ?s4\<lparr>warnings := warnings ?s4 @ [loopWarning (watcher_at env ?w)]\<rparr>"
        by (simp add: Let_def)
      then show ?thesis using s3 by simp
    next
      case count
      let ?t = "?s4\<lparr>index := index ?s4 + 1\<rparr>"
      from count Suc.prems(2) True s3(1) have run: "flushLoop n env flush ?t = Some s'"
        by (simp add: Let_def)
      have "index ?t < length (queue ?t) \<longrightarrow> waiting ?t" using s3 by simp
      from Suc.IH[OF this run] obtain l where l: "runLog s' = runLog ?t @ l"
        "warnings s' = warnings ?t \<longrightarrow> subseq (drop (index ?t) (queue ?t)) l" by blast
      have "runLog s' = runLog s @ (?w # l)" using l(1) s3 by simp
      moreover have "warnings s' = warnings s \<longrightarrow> subseq (drop (index s) (queue s)) (?w # l)"
        using l(2) s3 ext[of l] by simp
      ultimately show ?thesis by blast
    next
      case plain
      let ?t = "s3\<lparr>index := index s3 + 1\<rparr>"
      from plain Suc.prems(2) True s3(1) have run: "flushLoop n env flush ?t = Some s'"
        by (auto simp add: Let_def)
      have "index ?t < length (queue ?t) \<longrightarrow> waiting ?t" using s3 by simp
      from Suc.IH[OF this run] obtain l where l: "runLog s' = runLog ?t @ l"
        "warnings s' = warnings ?t \<longrightarrow> subseq (drop (index ?t) (queue ?t)) l" by blast
      have "runLog s' = runLog s @ (?w # l)" using l(1) s3 by simp
      moreover have "warnings s' = warnings s \<longrightarrow> subseq (drop (index s) (queue s)) (?w # l)"
        using l(2) s3 ext[of l] by simp
      ultimately show ?thesis by blast
    qed
  qed
qed

subsection \<open>Reentrant insertion (claim C1)\<close>

text \<open>
  Claim C1, as amended. While a flush is in progress (\<open>flushing\<close> and \<open>waiting\<close> are set and the
  cursor \<open>index\<close> points at an entry of the queue), \<open>queueWatcher\<close> on a watcher whose id is
  not pending splices it into the queue at a position \<open>p\<close> strictly after the cursor, so
  it belongs to the pass in progress and is never deferred to a later pass: the entries up to
  the cursor are untouched and no further flush is scheduled. If its id is smaller than
  every id of the not-yet-executed tail, \<open>p\<close> is the slot right after the cursor (it is the
  next watcher to run); if its id is greater than every id of the tail, it is appended at the
  end of the queue. When the pass then moves on from the cursor and ends without the
  circular-update diagnostic, the inserted watcher has been run in that pass.
\<close>

theorem reentrant_insertion_stays_in_pass:
  assumes "flushing s" and "waiting s" and "index s < length (queue s)"
      and "is_null (has s (idOf env w))"
  shows "\<exists>p s'. queueWatcher env flush w s = Some s'
           \<and> index s < p \<and> p \<le> length (queue s)
           \<and> queue s' = take p (queue s) @ [w] @ drop p (queue s)
           \<and> index s' = index s \<and> ticks s' = ticks s \<and> runLog s' = runLog s
           \<and> ((\<forall>x\<in>set (drop (Suc (index s)) (queue s)). idOf env w < idOf env x)
                \<longrightarrow> p = Suc (index s))
           \<and> ((\<forall>x\<in>set (drop (Suc (index s)) (queue s)). idOf env x < idOf env w)
                \<longrightarrow> p = length (queue s))
           \<and> (\<forall>n s''. flushLoop n env flush (s'\<lparr>index := Suc (index s)\<rparr>) = Some s''
                  \<and> warnings s'' = warnings s
                \<longrightarrow> w \<in> set (drop (length (runLog s)) (runLog s'')))"
proof -
  let ?p = "insertPos env w s"
  let ?s' = "enqueue env w s"
  have q: "queueWatcher env flush w s = Some ?s'"
    using assms by (simp add: queueWatcher_waiting)
  have b: "index s < ?p" "?p \<le> length (queue s)"
    using insertPos_bounds[OF assms(3), of env w] by auto
  have qu: "queue ?s' = take ?p (queue s) @ [w] @ drop ?p (queue s)"
    using assms(1) by (simp add: enqueue_queue spliceIn_def)
  have dyn: "w \<in> set (drop (length (runLog s)) (runLog s''))"
    if run: "flushLoop n env flush (?s'\<lparr>index := Suc (index s)\<rparr>) = Some s''"
      and nw: "warnings s'' = warnings s" for n s''
  proof -
    let ?t = "?s'\<lparr>index := Suc (index s)\<rparr>"
    have "index ?t < length (queue ?t) \<longrightarrow> waiting ?t" using assms(2) by simp
    from flushLoop_runs_tail[OF this run] obtain l where
      l: "runLog s'' = runLog ?t @ l" "warnings s'' = warnings ?t \<longrightarrow> subseq (drop (index ?t) (queue ?t)) l"
      by blast
    have "drop (Suc (index s)) (queue ?s') = drop (Suc (index s)) (take ?p (queue s)) @ w # drop ?p (queue s)"
      using b by (simp add: qu)
    then have "w \<in> set (drop (index ?t) (queue ?t))" by simp
    moreover have "subseq (drop (index ?t) (queue ?t)) l" using l(2) nw by simp
    ultimately have "w \<in> set l" by (rule subseq_mem[rotated])
    then show ?thesis using l(1) by simp
  qed
  have dyn': "\<forall>n s''. flushLoop n env flush (?s'\<lparr>index := Suc (index s)\<rparr>) = Some s''
                  \<and> warnings s'' = warnings s
                \<longrightarrow> w \<in> set (drop (length (runLog s)) (runLog s''))"
    using dyn by blast
  show ?thesis
    apply (rule exI[of _ ?p], rule exI[of _ ?s'])
    using q b qu dyn' insertPos_next[OF assms(3), of env w] insertPos_last[OF assms(3), of env w]
    by simp
qed

text \<open>
  An instance: the queue holds ids 1, 2, 3, the cursor is at id 2, and id 1 is enqueued
  again. It lands right behind the cursor.
\<close>

theorem reentrant_insertion_stays_in_pass_witness:
  "\<exists>s'. queueWatcher (exampleEnv False reentrantTable) (\<lambda>s. None) 1 midFlush = Some s'
        \<and> queue s' = [1, 2, 1, 3] \<and> index s' = 1"
  using reentrant_insertion_stays_in_pass
          [of midFlush "exampleEnv False reentrantTable" 1 "\<lambda>s. None"]
  by (auto simp add: midFlush_def exampleEnv_def reentrantTable_def plainWatcher_def
        idOf_def initialState_def)

text \<open>
  Claim C1 as stated fails: watchers 3, 1, 2 are enqueued before the flush and the body of
  watcher 2 enqueues watcher 1 again. The one pass runs 1, 2, 1, 3; afterwards the queue is
  empty and no flush beyond the one that was scheduled when the first
  watcher was enqueued has been requested, so nothing was deferred to a next pass.
\<close>

theorem reentrant_insertion_counterexample:
  "map_option runLog
     (Option.bind
        (queueAll (queueWatcher (exampleEnv False reentrantTable)
                     (flushSchedulerQueue 6 (exampleEnv False reentrantTable))) [3, 1, 2]
           (initialState ()))
        (flushSchedulerQueue 6 (exampleEnv False reentrantTable)))
   = Some [1, 2, 1, 3]
   \<and> map_option queue
     (Option.bind
        (queueAll (queueWatcher (exampleEnv False reentrantTable)
                     (flushSchedulerQueue 6 (exampleEnv False reentrantTable))) [3, 1, 2]
           (initialState ()))
        (flushSchedulerQueue 6 (exampleEnv False reentrantTable)))
   = Some []
   \<and> map_option ticks
     (Option.bind
        (queueAll (queueWatcher (exampleEnv False reentrantTable)
                     (flushSchedulerQueue 6 (exampleEnv False reentrantTable))) [3, 1, 2]
           (initialState ()))
        (flushSchedulerQueue 6 (exampleEnv False reentrantTable)))
   = Some 1"
  by code_simp

subsection \<open>Passes over watchers that enqueue nothing\<close>

lemma invoke_quiet:
  "snd (body (client s)) = [] \<Longrightarrow> invoke env flush body s = Some (s\<lparr>client := fst (body (client s))\<rparr>)"
  by (cases "body (client s)") (simp add: invoke_def)

lemma runEntry_quiet:
  assumes "quiet env w"
  shows "\<exists>u. runEntry env flush w s =
           Some (s\<lparr>has := (has s)(idOf env w \<mapsto> Null_mark), runLog := runLog s @ [w], client := u\<rparr>)"
proof (cases "before (watcher_at env w)")
  case None
  have "snd (run (watcher_at env w) (client s)) = []" using assms by (simp add: quiet_def)
  then show ?thesis using None by (simp add: runEntry_def Let_def invoke_quiet) blast
next
  case (Some b)
  have b: "snd (b (client s)) = []" using assms Some by (simp add: quiet_def)
  have "snd (run (watcher_at env w) (fst (b (client s)))) = []" using assms by (simp add: quiet_def)
  then show ?thesis using Some b by (simp add: runEntry_def Let_def invoke_quiet) blast
qed

lemma flushLoop_quiet:
  "\<forall>w\<in>set (drop (index s) (queue s)). quiet env w \<Longrightarrow> length (queue s) - index s < n \<Longrightarrow>
   \<exists>s'. flushLoop n env flush s = Some s' \<and> runLog s' = runLog s @ drop (index s) (queue s) \<and>
        queue s' = queue s \<and> activatedChildren s' = activatedChildren s \<and>
        warnings s' = warnings s \<and> ticks s' = ticks s"
proof (induction n arbitrary: s)
  case 0
  then show ?case by simp
next
  case (Suc n)
  show ?case
  proof (cases "index s < length (queue s)")
    case False
    then show ?thesis by simp
  next
    case True
    let ?w = "queue s ! index s"
    have dr: "drop (index s) (queue s) = ?w # drop (Suc (index s)) (queue s)"
      using True by (simp add: Cons_nth_drop_Suc)
    then have qw: "quiet env ?w" using Suc.prems(1) by simp
    from runEntry_quiet[OF qw, of flush s] obtain u where
      re: "runEntry env flush ?w s =
           Some (s\<lparr>has := (has s)(idOf env ?w \<mapsto> Null_mark), runLog := runLog s @ [?w], client := u\<rparr>)"
      by blast
    let ?t = "s\<lparr>has := (has s)(idOf env ?w \<mapsto> Null_mark), runLog := runLog s @ [?w], client := u,
                index := Suc (index s)\<rparr>"
    have step: "flushLoop (Suc n) env flush s = flushLoop n env flush ?t"
      using True re by (simp add: Let_def)
    have "\<forall>w\<in>set (drop (index ?t) (queue ?t)). quiet env w" using Suc.prems(1) dr by simp
    moreover have "length (queue ?t) - index ?t < n" using Suc.prems(2) True by simp
    ultimately obtain s' where s': "flushLoop n env flush ?t = Some s'"
        "runLog s' = runLog ?t @ drop (index ?t) (queue ?t)" "queue s' = queue ?t"
        "activatedChildren s' = activatedChildren ?t" "warnings s' = warnings ?t" "ticks s' = ticks ?t"
      using Suc.IH[of ?t] by blast
    show ?thesis using step s' dr by simp
  qed
qed

lemma queueWatcher_idle:
  assumes "production env \<or> async env" and "\<not> flushing s"
      and "\<forall>k. is_null (has s k) \<longleftrightarrow> k \<notin> idOf env ` set (queue s)"
      and "distinct (map (idOf env) (queue s))"
      and "queue s \<noteq> [] \<longrightarrow> waiting s"
  shows "\<exists>s'. queueWatcher env flush w s = Some s' \<and> \<not> flushing s' \<and>
           (queue s' \<noteq> [] \<longrightarrow> waiting s') \<and>
           (\<forall>k. is_null (has s' k) \<longleftrightarrow> k \<notin> idOf env ` set (queue s')) \<and>
           distinct (map (idOf env) (queue s')) \<and>
           idOf env ` set (queue s') = insert (idOf env w) (idOf env ` set (queue s)) \<and>
           set (queue s') \<subseteq> insert w (set (queue s)) \<and>
           length (queue s') \<le> Suc (length (queue s)) \<and>
           runLog s' = runLog s \<and> warnings s' = warnings s \<and> index s' = index s"
proof (cases "is_null (has s (idOf env w))")
  case False
  then have "idOf env w \<in> idOf env ` set (queue s)" using assms(3) by blast
  then show ?thesis using assms False by (auto simp add: queueWatcher_deferred)
next
  case True
  then have new: "idOf env w \<notin> idOf env ` set (queue s)" using assms(3) by blast
  show ?thesis
  proof (cases "waiting s")
    case w: True
    show ?thesis using assms True w new
      by (auto simp add: queueWatcher_deferred enqueue_queue)
  next
    case w: False
    show ?thesis using assms True w new
      by (auto simp add: queueWatcher_deferred enqueue_queue)
  qed
qed

lemma queueAll_idle:
  assumes "production env \<or> async env"
  shows "\<not> flushing s \<Longrightarrow> \<forall>k. is_null (has s k) \<longleftrightarrow> k \<notin> idOf env ` set (queue s) \<Longrightarrow>
     distinct (map (idOf env) (queue s)) \<Longrightarrow> queue s \<noteq> [] \<longrightarrow> waiting s \<Longrightarrow>
     \<exists>s'. queueAll (queueWatcher env flush) ws s = Some s' \<and> \<not> flushing s' \<and>
           (queue s' \<noteq> [] \<longrightarrow> waiting s') \<and>
           distinct (map (idOf env) (queue s')) \<and>
           idOf env ` set (queue s') = idOf env ` set (queue s) \<union> idOf env ` set ws \<and>
           set (queue s') \<subseteq> set (queue s) \<union> set ws \<and>
           length (queue s') \<le> length (queue s) + length ws \<and>
           runLog s' = runLog s \<and> warnings s' = warnings s"
proof (induction ws arbitrary: s)
  case Nil
  then show ?case by simp
next
  case (Cons w ws)
  from queueWatcher_idle[OF assms Cons.prems, of flush w] obtain s1 where
    s1: "queueWatcher env flush w s = Some s1" "\<not> flushing s1"
        "\<forall>k. is_null (has s1 k) \<longleftrightarrow> k \<notin> idOf env ` set (queue s1)"
        "distinct (map (idOf env) (queue s1))"
        "idOf env ` set (queue s1) = insert (idOf env w) (idOf env ` set (queue s))"
        "set (queue s1) \<subseteq> insert w (set (queue s))"
        "length (queue s1) \<le> Suc (length (queue s))"
        "runLog s1 = runLog s" "warnings s1 = warnings s" "queue s1 \<noteq> [] \<longrightarrow> waiting s1" by blast
  from Cons.IH[OF s1(2,3,4,10)] obtain s' where
    s': "queueAll (queueWatcher env flush) ws s1 = Some s'" "\<not> flushing s'"
        "distinct (map (idOf env) (queue s'))"
        "idOf env ` set (queue s') = idOf env ` set (queue s1) \<union> idOf env ` set ws"
        "set (queue s') \<subseteq> set (queue s1) \<union> set ws"
        "length (queue s') \<le> length (queue s1) + length ws"
        "runLog s' = runLog s1" "warnings s' = warnings s1" "queue s' \<noteq> [] \<longrightarrow> waiting s'" by blast
  have "queueAll (queueWatcher env flush) (w # ws) s = Some s'" using s1(1) s'(1) by simp
  moreover have "idOf env ` set (queue s') = idOf env ` set (queue s) \<union> idOf env ` set (w # ws)"
    using s'(4) s1(5) by auto
  moreover have "set (queue s') \<subseteq> set (queue s) \<union> set (w # ws)" using s'(5) s1(6) by auto
  moreover have "length (queue s') \<le> length (queue s) + length (w # ws)" using s'(6) s1(7) by simp
  ultimately show ?case using s' s1 by simp
qed

lemma queueAll_deferred:
  assumes "production env \<or> async env"
  shows "\<exists>s'. queueAll (queueWatcher env flush) ws s = Some s' \<and> runLog s' = runLog s \<and> warnings s' = warnings s"
proof (induction ws arbitrary: s)
  case Nil
  then show ?case by simp
next
  case (Cons w ws)
  obtain s1 where s1: "queueWatcher env flush w s = Some s1" "runLog s1 = runLog s"
      "warnings s1 = warnings s"
    using assms by (simp add: queueWatcher_deferred)
  from Cons.IH[of s1] obtain s' where "queueAll (queueWatcher env flush) ws s1 = Some s'" "runLog s' = runLog s1"
      "warnings s' = warnings s1"
    by blast
  then show ?case using s1 by simp
qed

lemma invoke_deferred:
  assumes "production env \<or> async env"
  shows "\<exists>s'. invoke env flush body s = Some s' \<and> runLog s' = runLog s \<and> warnings s' = warnings s"
proof -
  obtain u ws where b: "body (client s) = (u, ws)" by (cases "body (client s)")
  from queueAll_deferred[OF assms, of flush ws "s\<lparr>client := u\<rparr>"] show ?thesis
    by (simp add: invoke_def b)
qed

lemma callActivatedHooks_deferred:
  assumes "production env \<or> async env"
  shows "\<exists>s'. callActivatedHooks env flush cs s = Some s' \<and> runLog s' = runLog s \<and> warnings s' = warnings s"
proof (induction cs arbitrary: s)
  case Nil
  then show ?case by simp
next
  case (Cons c cs)
  from invoke_deferred[OF assms, of flush "activateChildComponent env c" "s\<lparr>client := setInactive env c True (client s)\<rparr>"]
  obtain s1 where s1: "invoke env flush (activateChildComponent env c) (s\<lparr>client := setInactive env c True (client s)\<rparr>) = Some s1"
     "runLog s1 = runLog s" "warnings s1 = warnings s" by auto
  from Cons.IH[of s1] obtain s' where "callActivatedHooks env flush cs s1 = Some s'" "runLog s' = runLog s1"
     "warnings s' = warnings s1" by blast
  then show ?case using s1 by simp
qed

lemma callUpdatedHooks_from_deferred:
  assumes "production env \<or> async env"
  shows "\<exists>s'. callUpdatedHooks_from env flush ws s = Some s' \<and> runLog s' = runLog s \<and> warnings s' = warnings s"
proof (induction ws arbitrary: s)
  case Nil
  then show ?case by simp
next
  case (Cons w ws)
  show ?case
  proof (cases "isPrimaryMounted env (client s) w")
    case False
    then show ?thesis using Cons.IH[of s] by simp
  next
    case True
    from invoke_deferred[OF assms, of flush "updatedHook env (vm (watcher_at env w))" s]
    obtain s1 where s1: "invoke env flush (updatedHook env (vm (watcher_at env w))) s = Some s1"
      "runLog s1 = runLog s" "warnings s1 = warnings s" by auto
    from Cons.IH[of s1] obtain s' where "callUpdatedHooks_from env flush ws s1 = Some s'" "runLog s' = runLog s1"
      "warnings s' = warnings s1" by blast
    then show ?thesis using s1 True by simp
  qed
qed

lemma initialState_fields [simp]:
  "queue (initialState u) = []" "flushing (initialState u) = False"
  "has (initialState u) = (\<lambda>_. None)" "runLog (initialState u) = []"
  "waiting (initialState u) = False" "index (initialState u) = 0"
  "warnings (initialState u) = []" "ticks (initialState u) = 0"
  by (simp_all add: initialState_def)

lemma resetSchedulerState_runLog [simp]: "runLog (resetSchedulerState env s) = runLog s"
  by (simp add: resetSchedulerState_def)

lemma resetSchedulerState_warnings [simp]: "warnings (resetSchedulerState env s) = warnings s"
  by (simp add: resetSchedulerState_def)

subsection \<open>Scheduler ordering (claim C2)\<close>

text \<open>
  Claim C2. Watchers are enqueued with \<open>queueWatcher\<close>, in any order and possibly repeatedly,
  starting from the initial scheduler state, with the flush deferred to the next tick (the
  default; the development-only synchronous mode would flush inside the first call).
  Enqueuing succeeds, and then:

  \<^item> whatever the watchers and hooks do when they run, a call of \<open>flushSchedulerQueue\<close> that
    returns without the circular-update diagnostic has run the enqueued ids in strictly
    ascending order: their sorted list is a subsequence of the ids run (what the bodies
    enqueue during the pass runs in between);

  \<^item> when the bodies of the watchers enqueue nothing, \<open>flushSchedulerQueue\<close> returns, given
    fuel for one round per watcher, and has run exactly the enqueued ids, each once, in
    strictly ascending order of id.
\<close>

theorem flush_runs_in_ascending_id_order:
  assumes "production env \<or> async env"
  shows "\<exists>s1. queueAll (queueWatcher env flush) ws (initialState u) = Some s1
           \<and> (\<forall>n s2. flushSchedulerQueue n env s1 = Some s2 \<and> warnings s2 = []
                \<longrightarrow> subseq (sorted_list_of_set (idOf env ` set ws)) (map (idOf env) (runLog s2)))
           \<and> ((\<forall>w\<in>set ws. quiet env w) \<longrightarrow>
                (\<forall>n. length ws + 1 < n \<longrightarrow>
                  (\<exists>s2. flushSchedulerQueue n env s1 = Some s2
                     \<and> map (idOf env) (runLog s2) = sorted_list_of_set (idOf env ` set ws)
                     \<and> sorted_wrt (<) (map (idOf env) (runLog s2))
                     \<and> set (runLog s2) \<subseteq> set ws \<and> warnings s2 = [])))"
proof -
  from queueAll_idle[OF assms(1), of "initialState u" flush ws] obtain s1 where
    s1: "queueAll (queueWatcher env flush) ws (initialState u) = Some s1"
        "distinct (map (idOf env) (queue s1))"
        "idOf env ` set (queue s1) = idOf env ` set ws"
        "set (queue s1) \<subseteq> set ws" "length (queue s1) \<le> length ws" "runLog s1 = []"
        "warnings s1 = []" "queue s1 \<noteq> [] \<longrightarrow> waiting s1"
    by auto
  let ?q = "sort_key (idOf env) (queue s1)"
  let ?t = "s1\<lparr>flushing := True, queue := ?q, index := 0\<rparr>"
  have d: "distinct (map (idOf env) ?q)"
    using s1(2) by (simp add: distinct_map)
  have so: "sorted (map (idOf env) ?q)" by simp
  have eq: "map (idOf env) ?q = sorted_list_of_set (idOf env ` set ws)"
    by (rule sorted_distinct_set_unique[OF so d]) (simp_all add: s1(3))
  have hooks: "\<exists>s7. flushSchedulerQueue (Suc m) env s1 = Some s7 \<and> runLog s7 = runLog s3
                 \<and> warnings s7 = warnings s3"
    if s3: "flushLoop m env (flushSchedulerQueue m env) ?t = Some s3" for m s3
  proof -
    let ?s4 = "resetSchedulerState env s3"
    from callActivatedHooks_deferred[OF assms(1), of "flushSchedulerQueue m env" "activatedChildren s3" ?s4]
    obtain s5 where s5: "callActivatedHooks env (flushSchedulerQueue m env) (activatedChildren s3) ?s4 = Some s5"
         "runLog s5 = runLog ?s4" "warnings s5 = warnings ?s4" by blast
    from callUpdatedHooks_from_deferred[OF assms(1), of "flushSchedulerQueue m env" "rev (queue s3)" s5]
    obtain s6 where s6: "callUpdatedHooks env (flushSchedulerQueue m env) (queue s3) s5 = Some s6"
         "runLog s6 = runLog s5" "warnings s6 = warnings s5" unfolding callUpdatedHooks_def by blast
    let ?s7 = "if devtools env then s6\<lparr>emitted := emitted s6 + 1\<rparr> else s6"
    have "flushSchedulerQueue (Suc m) env s1 = Some ?s7"
      using s3 s5(1) s6(1) by (simp add: Let_def)
    moreover have "runLog ?s7 = runLog s3" using s6(2) s5(2) by simp
    moreover have "warnings ?s7 = warnings s3" using s6(3) s5(3) by simp
    ultimately show ?thesis by blast
  qed
  have general: "subseq (sorted_list_of_set (idOf env ` set ws)) (map (idOf env) (runLog s2))"
    if fl: "flushSchedulerQueue n env s1 = Some s2" and nw: "warnings s2 = []" for n s2
  proof -
    obtain m where n: "n = Suc m" using fl by (cases n) auto
    obtain s3 where s3: "flushLoop m env (flushSchedulerQueue m env) ?t = Some s3"
      using fl unfolding n by (cases "flushLoop m env (flushSchedulerQueue m env) ?t") (auto simp add: Let_def)
    from hooks[OF s3] fl have r: "runLog s2 = runLog s3" "warnings s2 = warnings s3"
      by (auto simp add: n)
    have "index ?t < length (queue ?t) \<longrightarrow> waiting ?t" using s1(8) by auto
    from flushLoop_runs_tail[OF this s3] obtain l where
      l: "runLog s3 = runLog ?t @ l" "warnings s3 = warnings ?t \<longrightarrow> subseq (drop (index ?t) (queue ?t)) l"
      by blast
    have "subseq ?q (runLog s3)" using l r nw s1(6,7) by simp
    then have "subseq (map (idOf env) ?q) (map (idOf env) (runLog s2))"
      unfolding r(1) by (rule subseq_map)
    then show ?thesis by (simp only: eq)
  qed
  have exact: "\<exists>s2. flushSchedulerQueue n env s1 = Some s2
                     \<and> map (idOf env) (runLog s2) = sorted_list_of_set (idOf env ` set ws)
                     \<and> sorted_wrt (<) (map (idOf env) (runLog s2))
                     \<and> set (runLog s2) \<subseteq> set ws \<and> warnings s2 = []"
    if qu: "\<forall>w\<in>set ws. quiet env w" and fuel: "length ws + 1 < n" for n
  proof -
    obtain m where n: "n = Suc m" using fuel by (cases n) auto
    have "\<forall>w\<in>set (drop (index ?t) (queue ?t)). quiet env w" using qu s1(4) by auto
    moreover have "length (queue ?t) - index ?t < m" using fuel s1(5) n by simp
    ultimately obtain s3 where
      s3: "flushLoop m env (flushSchedulerQueue m env) ?t = Some s3"
          "runLog s3 = runLog ?t @ drop (index ?t) (queue ?t)" "warnings s3 = warnings ?t"
      using flushLoop_quiet[of ?t env m "flushSchedulerQueue m env"] by blast
    from hooks[OF s3(1)] obtain s7 where
      s7: "flushSchedulerQueue n env s1 = Some s7" "runLog s7 = runLog s3" "warnings s7 = warnings s3"
      unfolding n by blast
    have log7: "runLog s7 = ?q" using s7(2) s3(2) s1(6) by simp
    have "sorted_wrt (<) (map (idOf env) ?q)" using so d by (simp add: strict_sorted_iff)
    moreover have "set ?q \<subseteq> set ws" using s1(4) by simp
    moreover have "warnings s7 = []" using s7(3) s3(3) s1(7) by simp
    ultimately show ?thesis using s7(1) log7 eq by (metis (no_types, lifting))
  qed
  show ?thesis
    apply (rule exI[of _ s1])
    using s1(1) general exact by blast
qed

text \<open>
  An instance: watchers with ids 3, 1, 2 are enqueued in this order and run as 1, 2, 3.
\<close>

theorem flush_runs_in_ascending_id_order_witness:
  "\<exists>s1 s2. queueAll (queueWatcher (exampleEnv False threeTable) (\<lambda>s. None)) [0, 1, 2] (initialState ()) = Some s1
     \<and> flushSchedulerQueue 5 (exampleEnv False threeTable) s1 = Some s2
     \<and> map (idOf (exampleEnv False threeTable)) (runLog s2) = [1, 2, 3]
     \<and> subseq [1, 2, 3] (map (idOf (exampleEnv False threeTable)) (runLog s2))"
proof -
  have h1: "production (exampleEnv False threeTable) \<or> async (exampleEnv False threeTable)"
    by (simp add: exampleEnv_def)
  have h2: "\<forall>w\<in>set [0, 1, 2]. quiet (exampleEnv False threeTable) w"
    by (simp add: quiet_def exampleEnv_def threeTable_def plainWatcher_def)
  have h3: "length [0::nat, 1, 2] + 1 < 5" by simp
  have ids: "sorted_list_of_set (idOf (exampleEnv False threeTable) ` set [0, 1, 2]) = [1, 2, 3]"
    by (simp add: idOf_def exampleEnv_def threeTable_def plainWatcher_def)
  from flush_runs_in_ascending_id_order[OF h1, of "\<lambda>s. None" "[0, 1, 2]" "()"]
  obtain s1 where
    s1: "queueAll (queueWatcher (exampleEnv False threeTable) (\<lambda>s. None)) [0, 1, 2] (initialState ()) = Some s1"
    and gen: "\<And>n s2. flushSchedulerQueue n (exampleEnv False threeTable) s1 = Some s2 \<Longrightarrow> warnings s2 = []
          \<Longrightarrow> subseq (sorted_list_of_set (idOf (exampleEnv False threeTable) ` set [0, 1, 2]))
                (map (idOf (exampleEnv False threeTable)) (runLog s2))"
    and ex: "(\<forall>w\<in>set [0, 1, 2]. quiet (exampleEnv False threeTable) w) \<longrightarrow>
          (\<forall>n. length [0::nat, 1, 2] + 1 < n \<longrightarrow>
            (\<exists>s2. flushSchedulerQueue n (exampleEnv False threeTable) s1 = Some s2
               \<and> map (idOf (exampleEnv False threeTable)) (runLog s2)
                   = sorted_list_of_set (idOf (exampleEnv False threeTable) ` set [0, 1, 2])
               \<and> sorted_wrt (<) (map (idOf (exampleEnv False threeTable)) (runLog s2))
               \<and> set (runLog s2) \<subseteq> set [0, 1, 2] \<and> warnings s2 = []))"
    by blast
  from ex h2 h3 obtain s2 where
    s2: "flushSchedulerQueue 5 (exampleEnv False threeTable) s1 = Some s2"
        "map (idOf (exampleEnv False threeTable)) (runLog s2)
           = sorted_list_of_set (idOf (exampleEnv False threeTable) ` set [0, 1, 2])"
        "warnings s2 = []"
    by blast
  from gen[OF s2(1) s2(3)]
  have "subseq (sorted_list_of_set (idOf (exampleEnv False threeTable) ` set [0, 1, 2]))
          (map (idOf (exampleEnv False threeTable)) (runLog s2))" .
  then show ?thesis using s1 s2(1,2) unfolding ids by (intro exI conjI)
qed

subsection \<open>A watcher that enqueues itself\<close>







subsection \<open>The entries before a looping watcher\<close>







subsection \<open>Circular-update guard (claim C6)\<close>





section \<open>Properties of the dependency tracker\<close>

lemma notifyLoop_drop:
  "i \<le> length snapshot \<Longrightarrow>
   notifyLoop env snapshot i (length snapshot) h
     = foldl (\<lambda>h' sub. update env sub h') h (drop i snapshot)"
proof (induction "length snapshot - i" arbitrary: i h)
  case 0
  then show ?case by (simp add: notifyLoop.simps)
next
  case (Suc k)
  then have lt: "i < length snapshot" by simp
  have "notifyLoop env snapshot i (length snapshot) h
          = notifyLoop env snapshot (i + 1) (length snapshot) (update env (snapshot ! i) h)"
    using lt by (subst notifyLoop.simps) simp
  also have "\<dots> = foldl (\<lambda>h' sub. update env sub h') (update env (snapshot ! i) h) (drop (i + 1) snapshot)"
    using Suc.hyps(1)[of "i + 1"] Suc.hyps(2) lt by simp
  also have "\<dots> = foldl (\<lambda>h' sub. update env sub h') h (drop i snapshot)"
    using lt by (simp add: Cons_nth_drop_Suc[symmetric])
  finally show ?case .
qed

lemma notify_as_fold:
  "notify env d h = foldl (\<lambda>h' sub. update env sub h') h (subs h d)"
  using notifyLoop_drop[of 0 "subs h d" env h] by (simp add: notify_def Let_def)

subsection \<open>Notification order (claim C7)\<close>

text \<open>
  Claim C7. \<open>notify\<close> on a dependency copies the subscriber list and then calls \<open>update\<close> on
  each entry of the copy, indexing the copy from 0 up to the length it had. Whatever an
  \<open>update\<close> does to the heap, including adding subscribers to or removing them from the live
  list of this dependency, the calls made are exactly one per subscriber present when
  \<open>notify\<close> was called, in insertion order: the resulting heap is the left-to-right
  composition of \<open>update\<close> over that list.
\<close>

theorem notify_invokes_snapshot_in_order:
  "notify env d h = foldl (\<lambda>h' sub. update env sub h') h (subs h d)"
  by (rule notify_as_fold)

text \<open>
  An instance where every \<open>update\<close> empties all live subscriber lists and records its
  subscriber: all three subscribers of the snapshot are still invoked, in order.
\<close>

theorem notify_invokes_snapshot_in_order_witness:
  "world (notify unsubscribingEnv 0 (emptyHeap\<lparr>subs := (\<lambda>d. [5, 3, 9])\<rparr>)) = [5, 3, 9]"
  using notify_invokes_snapshot_in_order[of unsubscribingEnv 0 "emptyHeap\<lparr>subs := (\<lambda>d. [5, 3, 9])\<rparr>"]
  by (simp add: unsubscribingEnv_def loggingEnv_def emptyHeap_def)

subsection \<open>The active-computation stack (claim C9)\<close>

lemma pushTarget_target [simp]: "target (pushTarget w h) = Target w"
  by (simp add: pushTarget_def Let_def split: target.splits)

text \<open>
  Claim C9, as amended. After \<open>pushTarget w\<close> the active computation is \<open>w\<close>. If a
  computation \<open>t\<close> was active before, it has been pushed on the stack and the following
  \<open>popTarget\<close> restores the whole state: \<open>Dep.target\<close> is \<open>t\<close> again and the stack is what it
  was. If no computation was active (the pointer was \<open>null\<close> or \<open>undefined\<close>, the stack empty),
  nothing is pushed and \<open>popTarget\<close> pops the empty stack: the pointer becomes \<open>undefined\<close>,
  which again means that no computation is active, whatever falsy value it held before.
\<close>

theorem target_stack_discipline:
  "target (pushTarget w h) = Target w
   \<and> (\<forall>t. target h = Target t \<longrightarrow> popTarget (pushTarget w h) = h)
   \<and> ((\<forall>t. target h \<noteq> Target t) \<and> targetStack h = []
        \<longrightarrow> popTarget (pushTarget w h) = h\<lparr>target := Undefined_target\<rparr>)"
  by (cases "target h") (simp_all add: pushTarget_def popTarget_def Let_def)

theorem target_stack_discipline_witness:
  "target (pushTarget 2 (emptyHeap\<lparr>target := Target 1\<rparr>)) = Target 2
   \<and> popTarget (pushTarget 2 (emptyHeap\<lparr>target := Target 1\<rparr>)) = emptyHeap\<lparr>target := Target 1\<rparr>
   \<and> popTarget (pushTarget 2 emptyHeap) = emptyHeap\<lparr>target := Undefined_target\<rparr>"
  using target_stack_discipline[of 2 "emptyHeap\<lparr>target := Target 1\<rparr>"]
        target_stack_discipline[of 2 emptyHeap]
  by (simp add: emptyHeap_def)

text \<open>
  Claim C9 as stated fails for the initial value of the pointer: \<open>Dep.target\<close> starts as
  \<open>null\<close>, and after one push and pop it is \<open>undefined\<close>, not the prior value.
\<close>

theorem target_not_restored_counterexample:
  "target emptyHeap = Null_target
   \<and> target (popTarget (pushTarget 7 emptyHeap)) = Undefined_target"
  by (simp add: emptyHeap_def pushTarget_def popTarget_def)

section \<open>Properties of observation\<close>

lemma andThen_Done [simp]: "andThen (Done x) f = f x"
  by (simp add: andThen_def)

lemma andThen_Raise [simp]: "andThen (Raise e) f = Raise e"
  by (simp add: andThen_def)

lemma andThen_OutOfFuel [simp]: "andThen OutOfFuel f = OutOfFuel"
  by (simp add: andThen_def)

lemma incVmCount_fields [simp]:
  "objs (incVmCount b h) = objs h" "nextOb (incVmCount b h) = nextOb h"
  "shouldConvert (incVmCount b h) = shouldConvert h" "warned (incVmCount b h) = warned h"
  "subs (incVmCount b h) = subs h" "closures (incVmCount b h) = closures h"
  by (simp_all add: incVmCount_def)

lemma observe_existing:
  "kind (objs h r) \<noteq> VNodeObject \<Longrightarrow> ob (objs h r) = ObInst b \<Longrightarrow>
   observe env rc (Obj r) a h = Done (Some b, if a then incVmCount b h else h)"
  by (simp add: observe_def)

subsection \<open>Idempotence of observe (claim C4)\<close>

text \<open>
  Claim C4. Let \<open>v\<close> be a composite value (an object that is not a VNode instance) whose
  own \<open>__ob__\<close> is an Observer instance \<open>b\<close>. Then \<open>observe\<close> returns \<open>b\<close>, whatever the fuel, and
  constructs nothing: no Observer is allocated and no object is touched; the heap is the
  same, up to the root counter of \<open>b\<close> when \<open>asRootData\<close> is set. A second call on the resulting
  heap returns the same \<open>b\<close> again.
\<close>

theorem observe_returns_existing_observer:
  assumes "kind (objs h r) \<noteq> VNodeObject" and "ob (objs h r) = ObInst b"
  shows "observe env rc (Obj r) a1 h = Done (Some b, if a1 then incVmCount b h else h)
       \<and> observe env rc (Obj r) a2 (if a1 then incVmCount b h else h)
           = Done (Some b, if a2 then incVmCount b (if a1 then incVmCount b h else h)
                           else (if a1 then incVmCount b h else h))
       \<and> nextOb (if a1 then incVmCount b h else h) = nextOb h
       \<and> objs (if a1 then incVmCount b h else h) = objs h"
proof -
  let ?h1 = "if a1 then incVmCount b h else h"
  have 1: "observe env rc (Obj r) a1 h = Done (Some b, ?h1)"
    using assms by (rule observe_existing)
  have "kind (objs ?h1 r) \<noteq> VNodeObject" "ob (objs ?h1 r) = ObInst b" using assms by simp_all
  then have 2: "observe env rc (Obj r) a2 ?h1 = Done (Some b, if a2 then incVmCount b ?h1 else ?h1)"
    by (rule observe_existing)
  show ?thesis using 1 2 by simp
qed

theorem observe_returns_existing_observer_witness:
  "observe (loggingEnv False) (level 0 (loggingEnv False)) (Obj 0) False frozenObserved
     = Done (Some 0, frozenObserved)
   \<and> observe (loggingEnv False) (level 0 (loggingEnv False)) (Obj 0) True frozenObserved
     = Done (Some 0, incVmCount 0 frozenObserved)"
  using observe_returns_existing_observer[of frozenObserved 0 0 "loggingEnv False" "level 0 (loggingEnv False)" False True]
  by (simp add: frozenObserved_def emptyObj_def emptyHeap_def)

subsection \<open>Values that are not observed (claim C8)\<close>

text \<open>
  Claim C8, as amended. \<open>observe\<close> returns nothing, leaves the heap as it is and raises no
  error, whatever the fuel, when the value is not an object, or is a VNode instance, or does
  not already carry an Observer and is not an array or plain object, is not extensible, is
  marked \<open>_isVue\<close>, or conversion is disabled (\<open>shouldConvert\<close> off, or server rendering).
\<close>

theorem observe_opts_out:
  assumes "(\<forall>r. v \<noteq> Obj r) \<or>
           (\<exists>r. v = Obj r \<and>
              (kind (objs h r) = VNodeObject \<or>
               ((\<forall>b. ob (objs h r) \<noteq> ObInst b) \<and>
                (\<not> (isArray h r \<or> kind (objs h r) = PlainObject) \<or> \<not> extensible (objs h r) \<or>
                 isVue (objs h r) \<or> \<not> shouldConvert h \<or> serverRendering env))))"
  shows "observe env rc v asRootData h = Done (None, h)"
proof (cases v)
  case (Obj r)
  show ?thesis
  proof (cases "kind (objs h r) = VNodeObject")
    case True
    then show ?thesis using Obj by (simp add: observe_def)
  next
    case False
    with assms Obj have nob: "\<forall>b. ob (objs h r) \<noteq> ObInst b"
      and off: "\<not> (isArray h r \<or> kind (objs h r) = PlainObject) \<or> \<not> extensible (objs h r) \<or>
                 isVue (objs h r) \<or> \<not> shouldConvert h \<or> serverRendering env" by auto
    show ?thesis using Obj False nob off
      by (cases "ob (objs h r)") (auto simp add: observe_def)
  qed
qed (use assms in \<open>simp_all add: observe_def\<close>)

theorem observe_opts_out_witness:
  "observe (loggingEnv False) (level 0 (loggingEnv False)) (Number (Num 1)) False emptyHeap
     = Done (None, emptyHeap)
   \<and> observe (loggingEnv False) (level 0 (loggingEnv False)) (Obj 0) True frozenPlain
     = Done (None, frozenPlain)"
  using observe_opts_out[of "Number (Num 1)" emptyHeap "loggingEnv False" "level 0 (loggingEnv False)" False]
        observe_opts_out[of "Obj 0" frozenPlain "loggingEnv False" "level 0 (loggingEnv False)" True]
  by (simp add: frozenPlain_def emptyObj_def emptyHeap_def)

text \<open>
  Claim C8 as stated fails for a value that already carries an Observer: a frozen object
  observed earlier, with conversion disabled, still gets its Observer back.
\<close>

theorem observe_frozen_counterexample:
  "extensible (objs frozenObserved 0) = False \<and> shouldConvert frozenObserved = False
   \<and> observe (loggingEnv False) (level 0 (loggingEnv False)) (Obj 0) False frozenObserved
       = Done (Some 0, frozenObserved)"
  by (simp add: observe_def frozenObserved_def emptyObj_def emptyHeap_def)

subsection \<open>Equality suppression in the reactive setter (claim C3)\<close>

text \<open>
  Claim C3. The setter installed by \<open>defineReactive\<close> first reads the current value of the
  field: the closed-over \<open>val\<close>, or the result of the getter that was on the key before. If
  the new value is strictly equal to it, or both are unequal to themselves (the NaN case),
  the setter returns at once, with the heap exactly as that read left it. With no earlier
  getter the heap is unchanged altogether: no subscriber of the field's dependency has been
  updated, and the stored value and the child Observer reference are what they were.
\<close>

theorem setter_skips_equal_value:
  assumes "currentValue rc c obj h = Done (v, h1)"
      and "strictEq newVal v \<or> (\<not> strictEq newVal newVal \<and> \<not> strictEq v v)"
  shows "reactiveSetter env rc c obj newVal h = Done h1
       \<and> (c_getter (closures h c) = None \<longrightarrow> h1 = h \<and> v = c_val (closures h c))"
proof -
  have "reactiveSetter env rc c obj newVal h = Done h1"
    using assms by (simp add: reactiveSetter_def)
  moreover have "c_getter (closures h c) = None \<longrightarrow> h1 = h \<and> v = c_val (closures h c)"
    using assms(1) by (auto simp add: currentValue_def)
  ultimately show ?thesis by blast
qed

theorem setter_skips_equal_value_witness:
  "reactiveSetter (loggingEnv False) (level 1 (loggingEnv False)) 0 0 (Number NaN) nanHeap = Done nanHeap"
proof -
  have cv: "currentValue (level 1 (loggingEnv False)) 0 0 nanHeap = Done (Number NaN, nanHeap)"
    by (simp add: currentValue_def nanHeap_def)
  have eq: "strictEq (Number NaN) (Number NaN)
            \<or> (\<not> strictEq (Number NaN) (Number NaN) \<and> \<not> strictEq (Number NaN) (Number NaN))"
    by simp
  from setter_skips_equal_value[OF cv eq, of "loggingEnv False"] show ?thesis by blast
qed

text \<open>
  For contrast, assigning a different value to the same field through the property notifies
  the subscriber of the field's dependency, while assigning NaN over NaN does not.
\<close>

lemma assignment_examples:
  "putProp (level 2 (loggingEnv False)) 0 (Name ''a'') (Number NaN) nanHeap = Done nanHeap"
  "(case putProp (level 2 (loggingEnv False)) 0 (Name ''a'') (Number (Num 1)) nanHeap of
      Done h \<Rightarrow> (world h, c_val (closures h 0)) | _ \<Rightarrow> ([], Undefined))
   = ([4], Number (Num 1))"
proof -
  have two: "(2::nat) = Suc (Suc 0)" by simp
  have cv: "currentValue rc 0 0 nanHeap = Done (Number NaN, nanHeap)" for rc :: "(nat, nat list) calls"
    by (simp add: currentValue_def nanHeap_def)
  have p: "map_of (props (objs nanHeap 0)) (Name ''a'')
             = Some (AccessorProp (Some (ReactiveGetter 0)) (Some (ReactiveSetter 0)) True True)"
    "\<not> isArray nanHeap 0"
    by (simp_all add: nanHeap_def isArray_def emptyObj_def emptyHeap_def)
  show "putProp (level 2 (loggingEnv False)) 0 (Name ''a'') (Number NaN) nanHeap = Done nanHeap"
    using p cv by (simp add: two putProp_def Let_def callFn_def reactiveSetter_def)
  have c0: "closures nanHeap 0 = \<lparr>c_dep = 0, c_val = Number NaN, childOb = None, c_getter = None,
                         c_setter = None, customSetter = None, shallow = False\<rparr>"
    "subs nanHeap 0 = [4]" "world nanHeap = []"
    by (simp_all add: nanHeap_def emptyHeap_def)
  show "(case putProp (level 2 (loggingEnv False)) 0 (Name ''a'') (Number (Num 1)) nanHeap of
      Done h \<Rightarrow> (world h, c_val (closures h 0)) | _ \<Rightarrow> ([], Undefined))
   = ([4], Number (Num 1))"
    using p cv c0
    by (simp add: two putProp_def Let_def callFn_def reactiveSetter_def observe_def
          notify_as_fold loggingEnv_def)
qed

subsection \<open>Root protection (claim C5)\<close>




subsection \<open>Which operations can emit a diagnostic\<close>

lemma andThen_DoneD: "andThen m f = Done y \<Longrightarrow> \<exists>x. m = Done x \<and> f x = Done y"
  by (cases m) simp_all

lemma setObj_fields [simp]:
  "warned (setObj r obj h) = warned h" "objs (setObj r obj h) = (objs h)(r := obj)"
  "observers (setObj r obj h) = observers h" "closures (setObj r obj h) = closures h"
  "subs (setObj r obj h) = subs h" "world (setObj r obj h) = world h"
  "nextOb (setObj r obj h) = nextOb h" "shouldConvert (setObj r obj h) = shouldConvert h"
  by (simp_all add: setObj_def)

lemma quietCalls_observe:
  "quietCalls rc \<Longrightarrow> r_observe rc v a h = Done res \<Longrightarrow> warned (snd res) = warned h"
  by (cases res) (auto simp add: quietCalls_def)

lemma quietCalls_callFn:
  "quietCalls rc \<Longrightarrow> r_callFn rc f this args h = Done res \<Longrightarrow> warned (snd res) = warned h"
  by (cases res) (auto simp add: quietCalls_def)

lemma quietCalls_dependArray:
  "quietCalls rc \<Longrightarrow> r_dependArray rc arr h = Done h' \<Longrightarrow> warned h' = warned h"
  by (auto simp add: quietCalls_def)

lemma foldl_update_warned:
  "quietEnv env \<Longrightarrow> warned (foldl (\<lambda>h' sub. update env sub h') h xs) = warned h"
  by (induction xs arbitrary: h) (simp_all add: quietEnv_def)

lemma notify_warned: "quietEnv env \<Longrightarrow> warned (notify env d h) = warned h"
  by (simp add: notify_as_fold foldl_update_warned)

lemma depend_warned: "quietEnv env \<Longrightarrow> warned (depend env d h) = warned h"
  by (simp add: depend_def quietEnv_def split: target.splits)

lemma getProp_warned:
  "quietCalls rc \<Longrightarrow> getProp rc r k h = Done res \<Longrightarrow> warned (snd res) = warned h"
  by (auto simp add: getProp_def split: if_splits key.splits option.splits property.splits
        dest: quietCalls_callFn)

lemma putProp_warned:
  "quietCalls rc \<Longrightarrow> putProp rc r k v h = Done h' \<Longrightarrow> warned h' = warned h"
  by (auto simp add: putProp_def Let_def split: if_splits key.splits option.splits property.splits
        dest!: andThen_DoneD dest: quietCalls_callFn)

lemma deleteProp_warned: "deleteProp r k h = Done h' \<Longrightarrow> warned h' = warned h"
  by (auto simp add: deleteProp_def Let_def split: if_splits key.splits option.splits)

lemma installAccessor_warned: "installAccessor obj k cl h = Done h' \<Longrightarrow> warned h' = warned h"
  by (auto simp add: installAccessor_def Let_def split: if_splits)

lemma defineReactive_warned:
  assumes "quietCalls rc" and "defineReactive env rc obj k v custom shal h = Done h'"
  shows "warned h' = warned h"
proof -
  let ?h1 = "h\<lparr>uid := uid h + 1, subs := (subs h)(uid h := [])\<rparr>"
  have w1: "warned ?h1 = warned h" by simp
  from assms(2) have "h' = ?h1 \<or>
     (\<exists>res cl. (if shal then Done (None, ?h1) else r_observe rc v False ?h1) = Done res
         \<and> installAccessor obj k cl (snd res) = Done h')"
    by (auto simp add: defineReactive_def newDep_def Let_def split: if_splits dest!: andThen_DoneD)
  then show ?thesis
  proof
    assume "h' = ?h1"
    then show ?thesis by simp
  next
    assume "\<exists>res cl. (if shal then Done (None, ?h1) else r_observe rc v False ?h1) = Done res
         \<and> installAccessor obj k cl (snd res) = Done h'"
    then obtain res cl where r: "(if shal then Done (None, ?h1) else r_observe rc v False ?h1) = Done res"
      and i: "installAccessor obj k cl (snd res) = Done h'" by blast
    have "warned (snd res) = warned ?h1"
      using r assms(1) by (auto split: if_splits dest: quietCalls_observe)
    with installAccessor_warned[OF i] w1 show ?thesis by simp
  qed
qed

lemma walkKeys_warned:
  "quietCalls rc \<Longrightarrow> walkKeys env rc obj ks h = Done h' \<Longrightarrow> warned h' = warned h"
proof (induction ks arbitrary: h)
  case Nil
  then show ?case by simp
next
  case (Cons k ks)
  from Cons.prems(2) obtain res h2 where
    g: "getProp rc obj k h = Done res"
    and d: "defineReactive env rc obj k (fst res) None False (snd res) = Done h2"
    and w: "walkKeys env rc obj ks h2 = Done h'"
    by (auto split: outcome.splits)
  from getProp_warned[OF Cons.prems(1) g] defineReactive_warned[OF Cons.prems(1) d]
       Cons.IH[OF Cons.prems(1) w]
  show ?case by simp
qed

lemma walk_warned:
  "quietCalls rc \<Longrightarrow> walk env rc obj h = Done h' \<Longrightarrow> warned h' = warned h"
  by (auto simp add: walk_def Let_def dest: walkKeys_warned)

lemma observeArrayLoop_warned:
  "quietCalls rc \<Longrightarrow> observeArrayLoop rc items i l h = Done h' \<Longrightarrow> warned h' = warned h"
proof (induction rc items i l h rule: observeArrayLoop.induct)
  case (1 rc items i l h)
  show ?case
  proof (cases "i < l")
    case False
    with "1.prems"(2) show ?thesis by (simp add: observeArrayLoop.simps)
  next
    case True
    from "1.prems"(2) True obtain res where
      o: "r_observe rc (elemAt (items h) i) False h = Done res"
      and rest: "observeArrayLoop rc items (i + 1) l (snd res) = Done h'"
      by (subst (asm) observeArrayLoop.simps) (auto split: outcome.splits)
    from "1.IH"[OF True o "1.prems"(1) rest] quietCalls_observe[OF "1.prems"(1) o]
    show ?thesis by simp
  qed
qed

lemma observeArray_warned:
  "quietCalls rc \<Longrightarrow> observeArray rc items h = Done h' \<Longrightarrow> warned h' = warned h"
  by (auto simp add: observeArray_def dest: observeArrayLoop_warned)

lemma newObserver_warned:
  assumes "quietCalls rc" and "newObserver env rc v h = Done res"
  shows "warned (snd res) = warned h"
  using assms
  by (auto simp add: newObserver_def newDep_def Let_def split: if_splits
        dest!: andThen_DoneD dest: observeArray_warned[OF assms(1)] walk_warned[OF assms(1)])

lemma newObserver_warned_pair:
  "quietCalls rc \<Longrightarrow> newObserver env rc v h = Done (x, h') \<Longrightarrow> warned h' = warned h"
  using newObserver_warned[of rc env v h "(x, h')"] by simp

lemma observe_warned:
  assumes "quietCalls rc" and "observe env rc v a h = Done res"
  shows "warned (snd res) = warned h"
proof (cases v)
  case (Obj r)
  show ?thesis
  proof (cases "kind (objs h r) = VNodeObject")
    case True
    with assms(2) Obj show ?thesis by (auto simp add: observe_def)
  next
    case False
    let ?first = "case ob (objs h r) of
                 ObInst existing \<Rightarrow> Done (Some existing, h)
               | _ \<Rightarrow>
                   if shouldConvert h \<and> \<not> serverRendering env \<and>
                      (isArray h r \<or> kind (objs h r) = PlainObject) \<and>
                      extensible (objs h r) \<and> \<not> isVue (objs h r)
                   then andThen (newObserver env rc r h) (\<lambda>res. Done (Some (fst res), snd res))
                   else Done (None, h)"
    from assms(2) Obj False obtain mid where
      m: "?first = Done mid"
      and fin: "(case mid of (result, h1) \<Rightarrow>
                 (case result of
                    Some b \<Rightarrow> if a then Done (result, incVmCount b h1) else Done (result, h1)
                  | None \<Rightarrow> Done (result, h1))) = Done res"
      by (auto simp add: observe_def dest!: andThen_DoneD)
    have w1: "warned (snd mid) = warned h"
    proof (cases "\<exists>nr. newObserver env rc r h = Done nr \<and> snd mid = snd nr")
      case True
      then obtain nr where "newObserver env rc r h = Done nr" "snd mid = snd nr" by blast
      with newObserver_warned[OF assms(1)] show ?thesis by simp
    next
      case False
      with m have "snd mid = h"
        by (auto split: obslot.splits if_splits dest!: andThen_DoneD)
      then show ?thesis by simp
    qed
    from fin have "warned (snd res) = warned (snd mid)"
      by (cases mid) (auto split: option.splits if_splits)
    with w1 show ?thesis by simp
  qed
qed (use assms(2) in \<open>auto simp add: observe_def\<close>)

lemma currentValue_warned:
  "quietCalls rc \<Longrightarrow> currentValue rc c obj h = Done res \<Longrightarrow> warned (snd res) = warned h"
  by (auto simp add: currentValue_def split: option.splits dest: quietCalls_callFn)

lemma dependElement_warned:
  "quietEnv env \<Longrightarrow> quietCalls rc \<Longrightarrow> dependElement env rc e h = Done h' \<Longrightarrow> warned h' = warned h"
  by (auto simp add: dependElement_def depend_warned split: val.splits obslot.splits if_splits
        dest!: andThen_DoneD dest: quietCalls_dependArray)

lemma dependArrayLoop_warned:
  "quietEnv env \<Longrightarrow> quietCalls rc \<Longrightarrow> dependArrayLoop env rc arr i l h = Done h' \<Longrightarrow>
   warned h' = warned h"
proof (induction env rc arr i l h rule: dependArrayLoop.induct)
  case (1 env rc arr i l h)
  show ?case
  proof (cases "i < l")
    case False
    with "1.prems"(3) show ?thesis by (simp add: dependArrayLoop.simps)
  next
    case True
    from "1.prems"(3) True obtain h1 where
      o: "dependElement env rc (elemAt (elems (objs h arr)) i) h = Done h1"
      and rest: "dependArrayLoop env rc arr (i + 1) l h1 = Done h'"
      by (subst (asm) dependArrayLoop.simps) (auto split: outcome.splits)
    from "1.IH"[OF True o "1.prems"(1,2) rest] dependElement_warned[OF "1.prems"(1,2) o]
    show ?thesis by simp
  qed
qed

lemma dependArray_warned:
  "quietEnv env \<Longrightarrow> quietCalls rc \<Longrightarrow> dependArray env rc arr h = Done h' \<Longrightarrow> warned h' = warned h"
  by (auto simp add: dependArray_def dest: dependArrayLoop_warned)

lemma reactiveGetter_warned:
  assumes "quietEnv env" and "quietCalls rc" and "reactiveGetter env rc c obj h = Done res"
  shows "warned (snd res) = warned h"
proof -
  from assms(3) obtain cv where cv: "currentValue rc c obj h = Done cv"
    and rest: "(case cv of (v, h1) \<Rightarrow>
          (case target h1 of
             Target w \<Rightarrow>
               let h2 = depend env (c_dep (closures h1 c)) h1 in
               (case childOb (closures h2 c) of
                  Some child \<Rightarrow>
                    let h3 = depend env (ob_dep (observers h2 child)) h2 in
                    (case v of
                       Obj r \<Rightarrow>
                         if isArray h3 r
                         then andThen (dependArray env rc r h3) (\<lambda>h4. Done (v, h4))
                         else Done (v, h3)
                     | _ \<Rightarrow> Done (v, h3))
                | None \<Rightarrow> Done (v, h2))
           | _ \<Rightarrow> Done (v, h1))) = Done res"
    by (auto simp add: reactiveGetter_def dest!: andThen_DoneD)
  have w1: "warned (snd cv) = warned h" using currentValue_warned[OF assms(2) cv] .
  obtain v h1 where p: "cv = (v, h1)" by (cases cv)
  have d: "warned (depend env x hh) = warned hh" for x hh using assms(1) by (rule depend_warned)
  have da: "dependArray env rc r hh = Done h4 \<Longrightarrow> warned h4 = warned hh" for r hh h4
    using dependArray_warned[OF assms(1,2)] .
  from rest p have "warned (snd res) = warned h1"
    by (auto simp add: Let_def d split: target.splits option.splits val.splits if_splits
          dest!: andThen_DoneD da)
  with w1 p show ?thesis by simp
qed

lemma reactiveSetter_warned:
  assumes "quietEnv env" and "quietCalls rc" and "reactiveSetter env rc c obj newVal h = Done h'"
  shows "warned h' = warned h"
proof -
  from assms(3) obtain cv where cv: "currentValue rc c obj h = Done cv"
    and rest: "(case cv of (v, h1) \<Rightarrow>
          if strictEq newVal v \<or> (\<not> strictEq newVal newVal \<and> \<not> strictEq v v) then Done h1
          else
            let h2 = (case customSetter (closures h1 c) of
                        Some f \<Rightarrow> if \<not> prodBuild env then callCustom env f h1 else h1
                      | None \<Rightarrow> h1)
            in andThen
                 (case c_setter (closures h2 c) of
                    Some s \<Rightarrow> andThen (r_callFn rc s obj [newVal] h2) (\<lambda>r. Done (snd r))
                  | None \<Rightarrow> Done (h2\<lparr>closures := (closures h2)(c := (closures h2 c)\<lparr>c_val := newVal\<rparr>)\<rparr>))
                 (\<lambda>h3. andThen
                    (if shallow (closures h3 c) then Done (None, h3) else r_observe rc newVal False h3)
                    (\<lambda>r. case r of (child, h4) \<Rightarrow>
                       Done (notify env (c_dep (closures h4 c))
                               (h4\<lparr>closures := (closures h4)(c := (closures h4 c)\<lparr>childOb := child\<rparr>)\<rparr>))))) = Done h'"
    by (auto simp add: reactiveSetter_def dest!: andThen_DoneD)
  have w1: "warned (snd cv) = warned h" using currentValue_warned[OF assms(2) cv] .
  obtain v h1 where p: "cv = (v, h1)" by (cases cv)
  show ?thesis
  proof (cases "strictEq newVal v \<or> (\<not> strictEq newVal newVal \<and> \<not> strictEq v v)")
    case True
    with rest p w1 show ?thesis by auto
  next
    case False
    let ?h2 = "(case customSetter (closures h1 c) of
                        Some f \<Rightarrow> if \<not> prodBuild env then callCustom env f h1 else h1
                      | None \<Rightarrow> h1)"
    have w2: "warned ?h2 = warned h1"
      using assms(1) by (auto simp add: quietEnv_def split: option.splits)
    from rest p False obtain h3 where
      s3: "(case c_setter (closures ?h2 c) of
                    Some s \<Rightarrow> andThen (r_callFn rc s obj [newVal] ?h2) (\<lambda>r. Done (snd r))
                  | None \<Rightarrow> Done (?h2\<lparr>closures := (closures ?h2)(c := (closures ?h2 c)\<lparr>c_val := newVal\<rparr>)\<rparr>)) = Done h3"
      and r3: "andThen
                    (if shallow (closures h3 c) then Done (None, h3) else r_observe rc newVal False h3)
                    (\<lambda>r. case r of (child, h4) \<Rightarrow>
                       Done (notify env (c_dep (closures h4 c))
                               (h4\<lparr>closures := (closures h4)(c := (closures h4 c)\<lparr>childOb := child\<rparr>)\<rparr>))) = Done h'"
      by (auto simp add: Let_def dest!: andThen_DoneD)
    have w3: "warned h3 = warned ?h2"
      using s3 quietCalls_callFn[OF assms(2)]
      by (auto split: option.splits dest!: andThen_DoneD)
    from r3 obtain r where o: "(if shallow (closures h3 c) then Done (None, h3) else r_observe rc newVal False h3) = Done r"
      and n: "h' = notify env (c_dep (closures (snd r) c))
                 ((snd r)\<lparr>closures := (closures (snd r))(c := (closures (snd r) c)\<lparr>childOb := fst r\<rparr>)\<rparr>)"
      by (auto simp add: split_beta dest!: andThen_DoneD)
    have w4: "warned (snd r) = warned h3"
      using o quietCalls_observe[OF assms(2)] by (auto split: if_splits)
    have "warned h' = warned (snd r)" unfolding n by (simp add: notify_warned[OF assms(1)])
    with w4 w3 w2 w1 p show ?thesis by simp
  qed
qed

lemma callFn_warned:
  assumes "quietEnv env" and "quietCalls rc" and "callFn env rc f this args h = Done res"
  shows "warned (snd res) = warned h"
proof (cases f)
  case (UserFn u)
  with assms(3) have "res = callUser env u this args h" by (simp add: callFn_def)
  then show ?thesis using assms(1) by (simp add: quietEnv_def)
next
  case (ReactiveGetter c)
  with assms(3) have "reactiveGetter env rc c this h = Done res" by (simp add: callFn_def)
  then show ?thesis by (rule reactiveGetter_warned[OF assms(1,2)])
next
  case (ReactiveSetter c)
  with assms(3) obtain h1 where
    "reactiveSetter env rc c this (case args of [] \<Rightarrow> Undefined | a # rest \<Rightarrow> a) h = Done h1"
    "res = (Undefined, h1)"
    by (auto simp add: callFn_def dest!: andThen_DoneD)
  then show ?thesis using reactiveSetter_warned[OF assms(1,2)] by auto
qed

lemma level_quiet: "quietEnv env \<Longrightarrow> quietCalls (level n env)"
proof (induction n)
  case 0
  then show ?case by (simp add: quietCalls_def)
next
  case (Suc n)
  have a: "observe env (level n env) v a h = Done (res, h') \<Longrightarrow> warned h' = warned h" for v a h res h'
    using observe_warned[OF Suc.IH[OF Suc.prems], of env v a h "(res, h')"] by simp
  have b: "callFn env (level n env) f this args h = Done (res, h') \<Longrightarrow> warned h' = warned h"
    for f this args h res h'
    using callFn_warned[OF Suc.prems Suc.IH[OF Suc.prems], of f this args h "(res, h')"] by simp
  have c: "dependArray env (level n env) arr h = Done h' \<Longrightarrow> warned h' = warned h" for arr h h'
    using dependArray_warned[OF Suc.prems Suc.IH[OF Suc.prems]] .
  show ?case unfolding quietCalls_def using a b c by simp
qed

lemma nativeSplice_warned:
  "nativeSplice arr start deleteCount inserted h = Done h' \<Longrightarrow> warned h' = warned h"
  by (auto simp add: nativeSplice_def Let_def split: if_splits)

lemma patchedSplice_warned:
  assumes "quietEnv env" and "quietCalls rc"
      and "patchedSplice env rc arr start deleteCount inserted h = Done h'"
  shows "warned h' = warned h"
proof -
  from assms(3) obtain h1 h2 d where n: "nativeSplice arr start deleteCount inserted h = Done h1"
    and o: "observeArray rc (\<lambda>hh. inserted) h1 = Done h2" and f: "h' = notify env d h2"
    by (auto simp add: patchedSplice_def split: obslot.splits dest!: andThen_DoneD)
  from nativeSplice_warned[OF n] observeArray_warned[OF assms(2) o] f
  show ?thesis by (simp add: notify_warned[OF assms(1)])
qed

lemma arraySplice_warned:
  assumes "quietEnv env" and "quietCalls rc"
      and "arraySplice env rc arr start deleteCount inserted h = Done h'"
  shows "warned h' = warned h"
  using assms(3) patchedSplice_warned[OF assms(1,2)] nativeSplice_warned
  by (auto simp add: arraySplice_def split: if_splits)

section \<open>Properties of set and del\<close>

lemma observe_primitive: "\<forall>r. v \<noteq> Obj r \<Longrightarrow> observe env rc v a h = Done (None, h)"
  by (cases v) (simp_all add: observe_def)

lemma observeArray_single_primitive:
  "\<forall>r. v \<noteq> Obj r \<Longrightarrow> observeArray (level (Suc n) env) (\<lambda>hh. [v]) h = Done h"
  by (simp add: observeArray_def observeArrayLoop.simps[of _ _ 0] observeArrayLoop.simps[of _ _ "Suc 0"]
        elemAt_def observe_primitive)

lemma observeArray_nothing: "observeArray rc (\<lambda>hh. []) h = Done h"
  by (simp add: observeArray_def observeArrayLoop.simps)

subsection \<open>Array index operations and root state (claim C10)\<close>

lemma extendLength_warned: "extendLength arr n h = Done h' \<Longrightarrow> warned h' = warned h"
  by (auto simp add: extendLength_def Let_def setObj_def split: if_splits)

text \<open>
  Claim C10. On an array, \<open>set\<close> and \<open>del\<close> with a valid index key are the splice path and
  nothing else: \<open>set\<close> extends the length if needed and splices the value in, \<open>del\<close> splices
  the element out, and neither looks at \<open>vmCount\<close>. As long as the collaborators' own
  callbacks emit nothing, a call that returns has emitted no diagnostic, whatever the fuel.
  The mutation is made and not rejected: on an ordinary array (extensible, not read-only,
  of a length the engine allows) storing a value that is not an object at an index below
  \<open>2\<^sup>3\<^sup>2 - 1\<close> returns the value with the element stored, and deleting returns with the
  element removed; on an observed array (its mutators patched and \<open>b\<close> its Observer,
  whatever its root counter) the array's dependency is notified as well. What the engine
  itself refuses is raised as its error and is no rejection by \<open>set\<close> or \<open>del\<close>:
  \<open>TypeError\<close> on a read-only array, \<open>RangeError\<close> for an index from \<open>2\<^sup>3\<^sup>2 - 1\<close>
  onwards.
\<close>

theorem array_index_operations_bypass_root_check:
  assumes "isArray h t"
  shows "set_prop env rc t (Index i) v h
           = andThen (extendLength t i h)
               (\<lambda>h1. andThen (arraySplice env rc t i 1 [v] h1) (\<lambda>h'. Done (v, h')))
       \<and> del env rc t (Index i) h = arraySplice env rc t i 1 [] h
       \<and> (quietEnv env \<longrightarrow>
            (\<forall>n res. set_prop env (level n env) t (Index i) v h = Done res
                \<longrightarrow> fst res = v \<and> warned (snd res) = warned h)
          \<and> (\<forall>n h'. del env (level n env) t (Index i) h = Done h' \<longrightarrow> warned h' = warned h))
       \<and> (\<not> readOnlyElems (objs h t) \<and> extensible (objs h t)
            \<and> length (elems (objs h t)) \<le> MAX_ARRAY_LENGTH \<and> i < MAX_ARRAY_LENGTH
            \<and> (augmented (objs h t) \<longrightarrow> ob (objs h t) = ObInst b)
            \<and> (\<forall>r. v \<noteq> Obj r) \<longrightarrow>
            (\<forall>n. set_prop env (level (Suc n) env) t (Index i) v h
                   = Done (v,
                       (if augmented (objs h t) then notify env (ob_dep (observers h b)) else id)
                       (setObj t ((objs h t)\<lparr>elems :=
                           take i (elems (objs h t) @ replicate (i - length (elems (objs h t))) Undefined)
                           @ [v]
                           @ drop (Suc i) (elems (objs h t) @ replicate (i - length (elems (objs h t))) Undefined)\<rparr>) h))))
       \<and> (\<not> readOnlyElems (objs h t) \<and> extensible (objs h t)
            \<and> length (elems (objs h t)) \<le> MAX_ARRAY_LENGTH
            \<and> (augmented (objs h t) \<longrightarrow> ob (objs h t) = ObInst b) \<longrightarrow>
            del env rc t (Index i) h
               = Done ((if augmented (objs h t) then notify env (ob_dep (observers h b)) else id)
                   (setObj t ((objs h t)\<lparr>elems := take i (elems (objs h t)) @ drop (Suc i) (elems (objs h t))\<rparr>) h)))
       \<and> (readOnlyElems (objs h t) \<longrightarrow>
            set_prop env rc t (Index i) v h = Raise TypeError
          \<and> del env rc t (Index i) h = Raise TypeError)
       \<and> (\<not> readOnlyElems (objs h t) \<and> extensible (objs h t) \<and> MAX_ARRAY_LENGTH \<le> i \<longrightarrow>
            set_prop env rc t (Index i) v h = Raise RangeError)"
proof -
  let ?o = "objs h t"
  let ?xs = "elems ?o"
  let ?pad = "?xs @ replicate (i - length ?xs) Undefined"
  let ?H = "setObj t (?o\<lparr>elems := take i ?pad @ [v] @ drop (Suc i) ?pad\<rparr>) h"
  let ?D = "setObj t (?o\<lparr>elems := take i ?xs @ drop (Suc i) ?xs\<rparr>) h"
  have s: "set_prop env rc t (Index i) v h
           = andThen (extendLength t i h)
               (\<lambda>h1. andThen (arraySplice env rc t i 1 [v] h1) (\<lambda>h'. Done (v, h')))" for rc
    using assms by (simp add: set_prop_def)
  have d: "del env rc t (Index i) h = arraySplice env rc t i 1 [] h" for rc
    using assms by (simp add: del_def)
  have q: "fst res = v \<and> warned (snd res) = warned h"
    if qe: "quietEnv env" and r: "set_prop env (level n env) t (Index i) v h = Done res" for n res
  proof -
    from r s obtain h1 h' where e: "extendLength t i h = Done h1"
      and sp: "arraySplice env (level n env) t i 1 [v] h1 = Done h'"
      and res: "res = (v, h')" by (auto dest!: andThen_DoneD)
    from arraySplice_warned[OF qe level_quiet[OF qe] sp] extendLength_warned[OF e]
    have "warned h' = warned h" by simp
    with res show ?thesis by simp
  qed
  have q': "warned h' = warned h"
    if qe: "quietEnv env" and r: "del env (level n env) t (Index i) h = Done h'" for n h'
    using arraySplice_warned[OF qe level_quiet[OF qe]] r d by simp
  have ext: "extendLength t i h = Done (setObj t (?o\<lparr>elems := ?pad\<rparr>) h)"
    if "\<not> readOnlyElems ?o" "length ?xs \<le> MAX_ARRAY_LENGTH" "i < MAX_ARRAY_LENGTH"
    using that by (simp add: extendLength_def Let_def)
  have nat: "nativeSplice t i 1 [v] (setObj t (?o\<lparr>elems := ?pad\<rparr>) h) = Done ?H"
    if "\<not> readOnlyElems ?o" "extensible ?o"
       "length ?xs \<le> MAX_ARRAY_LENGTH" "i < MAX_ARRAY_LENGTH"
    using that by (auto simp add: nativeSplice_def Let_def setObj_def min_def)
  have m: "set_prop env (level (Suc n) env) t (Index i) v h
             = Done (v, (if augmented ?o then notify env (ob_dep (observers h b)) else id) ?H)"
    if a: "\<not> readOnlyElems ?o" "extensible ?o"
          "length ?xs \<le> MAX_ARRAY_LENGTH" "i < MAX_ARRAY_LENGTH"
       and o: "augmented ?o \<longrightarrow> ob ?o = ObInst b" and p: "\<forall>r. v \<noteq> Obj r" for n
  proof (cases "augmented ?o")
    case False
    then show ?thesis unfolding s ext[OF a(1,3,4)]
      using nat[OF a] by (simp add: arraySplice_def setObj_def)
  next
    case True
    then have ob: "ob ?o = ObInst b" using o by simp
    show ?thesis unfolding s ext[OF a(1,3,4)]
      using True ob nat[OF a] p
      by (simp add: arraySplice_def patchedSplice_def observeArray_single_primitive setObj_def
            del: level.simps)
  qed
  have natd: "nativeSplice t i 1 [] h = Done ?D"
    if "\<not> readOnlyElems ?o" "length ?xs \<le> MAX_ARRAY_LENGTH"
    using that by (auto simp add: nativeSplice_def Let_def min_def)
  have m': "del env rc t (Index i) h
              = Done ((if augmented ?o then notify env (ob_dep (observers h b)) else id) ?D)"
    if a: "\<not> readOnlyElems ?o" "length ?xs \<le> MAX_ARRAY_LENGTH"
       and o: "augmented ?o \<longrightarrow> ob ?o = ObInst b"
  proof (cases "augmented ?o")
    case False
    then show ?thesis unfolding d using natd[OF a] by (simp add: arraySplice_def)
  next
    case True
    then have ob: "ob ?o = ObInst b" using o by simp
    show ?thesis unfolding d using True ob natd[OF a]
      by (simp add: arraySplice_def patchedSplice_def observeArray_nothing setObj_def)
  qed
  have ro: "set_prop env rc t (Index i) v h = Raise TypeError \<and> del env rc t (Index i) h = Raise TypeError"
    if "readOnlyElems ?o"
    unfolding s d using that
    by (simp add: extendLength_def arraySplice_def patchedSplice_def nativeSplice_def Let_def)
  have rg: "set_prop env rc t (Index i) v h = Raise RangeError"
    if a: "\<not> readOnlyElems ?o" "extensible ?o" "MAX_ARRAY_LENGTH \<le> i"
  proof (cases "MAX_ARRAY_LENGTH < max (length ?xs) i")
    case True
    then show ?thesis unfolding s using a(1) by (simp add: extendLength_def Let_def)
  next
    case False
    then have eq: "i = MAX_ARRAY_LENGTH" "length ?xs \<le> i" using a(3) by simp_all
    have e: "extendLength t i h = Done (setObj t (?o\<lparr>elems := ?pad\<rparr>) h)"
      using a(1) False by (simp add: extendLength_def Let_def)
    have "nativeSplice t i 1 [v] (setObj t (?o\<lparr>elems := ?pad\<rparr>) h) = Raise RangeError"
      using a(1,2) eq by (simp add: nativeSplice_def Let_def setObj_def)
    then show ?thesis unfolding s e
      by (simp add: arraySplice_def patchedSplice_def setObj_def)
  qed
  show ?thesis using s d q q' m m' ro rg by blast
qed

text \<open>
  An instance: an observed array whose Observer counts a root consumer. Storing at index 1
  and deleting index 0 go through, with the subscriber notified and no diagnostic; an
  index of \<open>2\<^sup>3\<^sup>2\<close> is refused by the engine, and so is every change of the frozen array.
\<close>

theorem array_index_operations_bypass_root_check_witness:
  "vmCount (observers rootArrayHeap 0) = 1
   \<and> (\<exists>h'. set_prop (loggingEnv False) (level (Suc 0) (loggingEnv False)) 0 (Index 1) (Number (Num 2)) rootArrayHeap
             = Done (Number (Num 2), h')
          \<and> elems (objs h' 0) = [Number (Num 1), Number (Num 2)] \<and> warned h' = [] \<and> world h' = [4])
   \<and> (\<exists>h'. del (loggingEnv False) (level (Suc 0) (loggingEnv False)) 0 (Index 0) rootArrayHeap = Done h'
          \<and> elems (objs h' 0) = [] \<and> warned h' = [] \<and> world h' = [4])
   \<and> set_prop (loggingEnv False) (level (Suc 0) (loggingEnv False)) 0 (Index 4294967296) (Number (Num 2))
         rootArrayHeap = Raise RangeError
   \<and> set_prop (loggingEnv False) (level (Suc 0) (loggingEnv False)) 0 (Index 0) (Number (Num 2))
         frozenArrayHeap = Raise TypeError
   \<and> del (loggingEnv False) (level (Suc 0) (loggingEnv False)) 0 (Index 0) frozenArrayHeap
         = Raise TypeError"
proof -
  let ?E = "loggingEnv False"
  let ?S = "notify ?E (ob_dep (observers rootArrayHeap 0))
           (setObj 0 ((objs rootArrayHeap 0)\<lparr>elems :=
               take 1 (elems (objs rootArrayHeap 0) @ replicate (1 - length (elems (objs rootArrayHeap 0))) Undefined)
               @ [Number (Num 2)]
               @ drop (Suc 1) (elems (objs rootArrayHeap 0) @ replicate (1 - length (elems (objs rootArrayHeap 0))) Undefined)\<rparr>)
             rootArrayHeap)"
  let ?D = "notify ?E (ob_dep (observers rootArrayHeap 0))
           (setObj 0 ((objs rootArrayHeap 0)\<lparr>elems :=
               take 0 (elems (objs rootArrayHeap 0)) @ drop (Suc 0) (elems (objs rootArrayHeap 0))\<rparr>)
             rootArrayHeap)"
  have a: "isArray rootArrayHeap 0" by (simp add: isArray_def rootArrayHeap_def emptyObj_def)
  have af: "isArray frozenArrayHeap 0"
    by (simp add: isArray_def frozenArrayHeap_def rootArrayHeap_def emptyObj_def)
  have qe: "quietEnv ?E" by (simp add: quietEnv_def loggingEnv_def addSub_def)
  have ob: "\<not> readOnlyElems (objs rootArrayHeap 0)"
      "extensible (objs rootArrayHeap 0)"
      "length (elems (objs rootArrayHeap 0)) \<le> MAX_ARRAY_LENGTH"
      "augmented (objs rootArrayHeap 0) \<longrightarrow> ob (objs rootArrayHeap 0) = ObInst 0"
      "augmented (objs rootArrayHeap 0)"
      "\<forall>r. Number (Num 2) \<noteq> Obj r"
    by (simp_all add: rootArrayHeap_def emptyObj_def MAX_ARRAY_LENGTH_def)
  have i1: "(1::nat) < MAX_ARRAY_LENGTH" and big: "MAX_ARRAY_LENGTH \<le> 4294967296"
    by (simp_all add: MAX_ARRAY_LENGTH_def)
  have fr: "readOnlyElems (objs frozenArrayHeap 0)" by (simp add: frozenArrayHeap_def)
  note T1 = array_index_operations_bypass_root_check[OF a, of ?E "level (Suc 0) ?E" 1 "Number (Num 2)" 0]
  note T0 = array_index_operations_bypass_root_check[OF a, of ?E "level (Suc 0) ?E" 0 "Number (Num 2)" 0]
  note TB = array_index_operations_bypass_root_check[OF a, of ?E "level (Suc 0) ?E" 4294967296 "Number (Num 2)" 0]
  note TF = array_index_operations_bypass_root_check[OF af, of ?E "level (Suc 0) ?E" 0 "Number (Num 2)" 0]
  from T1 ob i1 have s: "set_prop ?E (level (Suc 0) ?E) 0 (Index 1) (Number (Num 2)) rootArrayHeap
      = Done (Number (Num 2), (if augmented (objs rootArrayHeap 0)
                then notify ?E (ob_dep (observers rootArrayHeap 0)) else id)
           (setObj 0 ((objs rootArrayHeap 0)\<lparr>elems :=
               take 1 (elems (objs rootArrayHeap 0) @ replicate (1 - length (elems (objs rootArrayHeap 0))) Undefined)
               @ [Number (Num 2)]
               @ drop (Suc 1) (elems (objs rootArrayHeap 0) @ replicate (1 - length (elems (objs rootArrayHeap 0))) Undefined)\<rparr>)
             rootArrayHeap))"
    by blast
  from T0 ob have d: "del ?E (level (Suc 0) ?E) 0 (Index 0) rootArrayHeap
      = Done ((if augmented (objs rootArrayHeap 0)
                then notify ?E (ob_dep (observers rootArrayHeap 0)) else id)
           (setObj 0 ((objs rootArrayHeap 0)\<lparr>elems :=
               take 0 (elems (objs rootArrayHeap 0)) @ drop (Suc 0) (elems (objs rootArrayHeap 0))\<rparr>)
             rootArrayHeap))"
    by blast
  from T1 qe have "\<forall>n res. set_prop ?E (level n ?E) 0 (Index 1) (Number (Num 2)) rootArrayHeap = Done res
       \<longrightarrow> fst res = Number (Num 2) \<and> warned (snd res) = warned rootArrayHeap" by blast
  from this[rule_format, OF s] have ws: "warned ?S = warned rootArrayHeap"
    using ob(5) by (simp only: snd_conv if_True)
  from T0 qe have "\<forall>n h'. del ?E (level n ?E) 0 (Index 0) rootArrayHeap = Done h'
       \<longrightarrow> warned h' = warned rootArrayHeap" by blast
  from this[rule_format, OF d] have wd: "warned ?D = warned rootArrayHeap"
    using ob(5) by (simp only: if_True)
  from TB ob big have r: "set_prop ?E (level (Suc 0) ?E) 0 (Index 4294967296) (Number (Num 2))
      rootArrayHeap = Raise RangeError"
    by blast
  from TF fr have f: "set_prop ?E (level (Suc 0) ?E) 0 (Index 0) (Number (Num 2)) frozenArrayHeap
        = Raise TypeError"
      "del ?E (level (Suc 0) ?E) 0 (Index 0) frozenArrayHeap = Raise TypeError"
    by blast+
  have s': "set_prop ?E (level (Suc 0) ?E) 0 (Index 1) (Number (Num 2)) rootArrayHeap
      = Done (Number (Num 2), ?S)" using s ob(5) by (simp only: if_True)
  have d': "del ?E (level (Suc 0) ?E) 0 (Index 0) rootArrayHeap = Done ?D"
    using d ob(5) by (simp only: if_True)
  have v: "vmCount (observers rootArrayHeap 0) = 1" by (simp add: rootArrayHeap_def)
  have w0: "warned rootArrayHeap = []" by (simp add: rootArrayHeap_def emptyHeap_def)
  have es: "elems (objs ?S 0) = [Number (Num 1), Number (Num 2)]" "world ?S = [4]"
    by (simp_all add: notify_as_fold rootArrayHeap_def emptyObj_def emptyHeap_def loggingEnv_def)
  have ed: "elems (objs ?D 0) = []" "world ?D = [4]"
    by (simp_all add: notify_as_fold rootArrayHeap_def emptyObj_def emptyHeap_def loggingEnv_def)
  have "\<exists>h'. set_prop ?E (level (Suc 0) ?E) 0 (Index 1) (Number (Num 2)) rootArrayHeap
             = Done (Number (Num 2), h')
          \<and> elems (objs h' 0) = [Number (Num 1), Number (Num 2)] \<and> warned h' = [] \<and> world h' = [4]"
    using s' es ws w0 by (intro exI[of _ ?S]) (simp only: simp_thms)
  moreover have "\<exists>h'. del ?E (level (Suc 0) ?E) 0 (Index 0) rootArrayHeap = Done h'
          \<and> elems (objs h' 0) = [] \<and> warned h' = [] \<and> world h' = [4]"
    using d' ed wd w0 by (intro exI[of _ ?D]) (simp only: simp_thms)
  ultimately show ?thesis using v r f by blast
qed

end
